theory Spec2Isabelle
  imports
    Main
    "HOL-Library.Sublist"
    "HOL-Library.Char_ord"
    "HOL-Library.List_Lexorder"
    "HOL-Library.Finite_Map"
    "HOL-Library.Word"
begin

chapter \<open>The build script \<open>gulpfile.ts\<close>\<close>

text \<open>
  A shallow embedding of \<^verbatim>\<open>src/gulpfile.ts\<close>. Paths and the contents of files are
  \<open>string\<close>; the texts of the bundler's diagnostics, which a regular expression with
  \<^verbatim>\<open>.\<close> is tested on, are lists of UTF-16 code units, as JavaScript strings are. An
  \<^verbatim>\<open>async\<close> function is a function from the file
  system to its outcome and the file system it leaves: a rejected promise is \<open>Inl\<close> of the
  error, a fulfilled one \<open>Inr\<close> of the value. What the script imports from other packages
  and cannot be read in the repository (parsers, code generators, the bundler) is a
  parameter of the task that calls it.
\<close>

section \<open>Strings\<close>

text \<open>\<^verbatim>\<open>Array.prototype.join\<close>.\<close>

fun join :: "string \<Rightarrow> string list \<Rightarrow> string" where
  "join sep [] = []"
| "join sep [x] = x"
| "join sep (x # y # ys) = x @ sep @ join sep (y # ys)"

text \<open>
  \<^verbatim>\<open>s.replace(/p/g, r)\<close> for a regular expression that is a literal text \<open>p\<close> and a
  replacement \<open>r\<close> without \<^verbatim>\<open>$\<close>: the scan goes left to right; at a match the replacement
  is emitted and the scan resumes after the match; elsewhere the character is kept. (The
  empty pattern matches between any two characters.)
\<close>

fun replace_global :: "string \<Rightarrow> string \<Rightarrow> string \<Rightarrow> string" where
  "replace_global p r [] = (if p = [] then r else [])"
| "replace_global p r (c # cs) =
     (if p = [] then r @ c # replace_global p r cs
      else if prefix p (c # cs) then r @ replace_global p r (drop (length p) (c # cs))
      else c # replace_global p r cs)"

text \<open>
  Lines 149-152: the pattern and the replacement of the \<^verbatim>\<open>$ref\<close> rewrite, and the
  rewrite the schema task applies to the text of every schema file.
\<close>

definition ABS_REF :: string where
  "ABS_REF = ''https://sourcegraph.com/v1/settings.schema.json#/definitions/''"

definition REL_REF :: string where
  "REL_REF = ''#/definitions/''"

definition rewrite_refs :: "string \<Rightarrow> string" where
  "rewrite_refs s = replace_global ABS_REF REL_REF s"

text \<open>
  The number of positions of \<open>s\<close> at which \<open>p\<close> occurs, for stating what the rewrite
  replaces.
\<close>

fun count_occurrences :: "string \<Rightarrow> string \<Rightarrow> nat" where
  "count_occurrences p [] = 0"
| "count_occurrences p (c # cs) =
     (if prefix p (c # cs) then 1 else 0) + count_occurrences p cs"

section \<open>Regular expressions of the shape used by the warnings filter\<close>

text \<open>
  A JavaScript string is a sequence of UTF-16 code units; \<open>units\<close> gives the code
  units of a text of ASCII characters.
\<close>

type_synonym code_unit = "16 word"

type_synonym js_text = "code_unit list"

definition units :: "string \<Rightarrow> js_text" where
  "units s = map (\<lambda>c. word_of_nat (of_char c)) s"

text \<open>
  The filter's expression is a sequence of literal characters, \<^verbatim>\<open>.\<close> and \<^verbatim>\<open>.*\<close>.
  Without the flag \<^verbatim>\<open>s\<close>, \<^verbatim>\<open>.\<close> matches every code unit but the four line terminators:
  line feed, carriage return, U+2028 and U+2029.
  \<^verbatim>\<open>RegExp.prototype.test\<close> looks for a match starting at any position of the text.
\<close>

datatype rx_item = Lit code_unit | Dot | DotStar

definition is_line_terminator :: "code_unit \<Rightarrow> bool" where
  "is_line_terminator c = (c = 0x0A \<or> c = 0x0D \<or> c = 0x2028 \<or> c = 0x2029)"

fun match_here :: "rx_item list \<Rightarrow> js_text \<Rightarrow> bool" where
  "match_here [] s = True"
| "match_here (Lit c # r) [] = False"
| "match_here (Lit c # r) (x # xs) = (x = c \<and> match_here r xs)"
| "match_here (Dot # r) [] = False"
| "match_here (Dot # r) (x # xs) = (\<not> is_line_terminator x \<and> match_here r xs)"
| "match_here (DotStar # r) [] = match_here r []"
| "match_here (DotStar # r) (x # xs) =
     (match_here r (x # xs) \<or> (\<not> is_line_terminator x \<and> match_here (DotStar # r) xs))"

fun rx_test :: "rx_item list \<Rightarrow> js_text \<Rightarrow> bool" where
  "rx_test r [] = match_here r []"
| "rx_test r (x # xs) = (match_here r (x # xs) \<or> rx_test r xs)"

definition lits :: "string \<Rightarrow> rx_item list" where
  "lits s = map Lit (units s)"

text \<open>
  Line 30:
  \<^verbatim>\<open>/node_modules\/monaco-editor\/.*\/editorSimpleWorker.js.*\n.*dependency is an expression/\<close>.
  The dot before \<^verbatim>\<open>js\<close> is not escaped in the source, so it is \<open>Dot\<close>.
\<close>

definition MONACO_WORKER_WARNING :: "rx_item list" where
  "MONACO_WORKER_WARNING =
     lits ''node_modules/monaco-editor/'' @ [DotStar] @ lits ''/editorSimpleWorker'' @ [Dot]
     @ lits ''js'' @ [DotStar, Lit 0x0A, DotStar] @ lits ''dependency is an expression''"

section \<open>Errors, the file system and promises\<close>

datatype error = Error string | PluginError string string

text \<open>
  The file system: the contents of the files, the directories, and the paths the process
  may not write (whatever the reason). \<^verbatim>\<open>mz/fs\<close> and \<^verbatim>\<open>mkdirp-promise\<close> are
  described by their effect on it.
\<close>

record fs =
  files :: "string \<rightharpoonup> string"
  dirs :: "string set"
  denied :: "string set"

type_synonym 'a io = "fs \<Rightarrow> (error + 'a) \<times> fs"

definition readFile :: "string \<Rightarrow> string io" where
  "readFile p s =
     (case files s p of None \<Rightarrow> (Inl (Error (''ENOENT: '' @ p)), s) | Some c \<Rightarrow> (Inr c, s))"

definition writeFile :: "string \<Rightarrow> string \<Rightarrow> unit io" where
  "writeFile p c s =
     (if p \<in> denied s then (Inl (Error (''EACCES: '' @ p)), s)
      else (Inr (), s\<lparr>files := (files s)(p \<mapsto> c)\<rparr>))"

definition stat :: "string \<Rightarrow> unit io" where
  "stat p s =
     (if files s p \<noteq> None \<or> p \<in> dirs s then (Inr (), s)
      else (Inl (Error (''ENOENT: '' @ p)), s))"

text \<open>
  The directories above a path: its prefixes that end before a separator, the nearest to
  the root first. \<^verbatim>\<open>mkdirp\<close> makes every directory above the path that is missing,
  from the root down, then the directory itself; a directory that exists already is not an
  error. It is rejected at the first directory it may not make, and the ones made before
  stay.
\<close>

definition parent_dirs :: "string \<Rightarrow> string list" where
  "parent_dirs p = [take i p. i \<leftarrow> [1 ..< length p], p ! i = CHR ''/'']"

definition mkdirp :: "string \<Rightarrow> unit io" where
  "mkdirp p s =
     (let missing = filter (\<lambda>d. d \<notin> dirs s) (parent_dirs p @ [p]);
          made = takeWhile (\<lambda>d. d \<notin> denied s) missing;
          s' = s\<lparr>dirs := dirs s \<union> set made\<rparr>
      in case dropWhile (\<lambda>d. d \<notin> denied s) missing of
           [] \<Rightarrow> (Inr (), s')
         | d # _ \<Rightarrow> (Inl (Error (''EACCES: '' @ d)), s'))"

text \<open>\<^verbatim>\<open>await\<close>: the rest of the function runs on the value, a rejection ends it.\<close>

definition await :: "'a io \<Rightarrow> ('a \<Rightarrow> 'b io) \<Rightarrow> 'b io" where
  "await m f s = (case m s of (Inl e, s') \<Rightarrow> (Inl e, s') | (Inr a, s') \<Rightarrow> f a s')"

text \<open>A call that throws or returns without touching the file system.\<close>

definition settled :: "error + 'a \<Rightarrow> 'a io" where
  "settled r s = (r, s)"

text \<open>
  \<^verbatim>\<open>Promise.all\<close>: every member runs, also after another one has been rejected; the
  result is the list of values, or the error of a rejected member (here the first in list
  order). The members of the script's groups read and write different paths, so the order
  in which their effects are applied does not change the file system they leave.
\<close>

fun promise_all :: "'a io list \<Rightarrow> 'a list io" where
  "promise_all [] s = (Inr [], s)"
| "promise_all (t # ts) s =
     (case t s of (r, s1) \<Rightarrow>
        (case promise_all ts s1 of (rs, s2) \<Rightarrow>
           ((case r of Inl e \<Rightarrow> Inl e
             | Inr a \<Rightarrow> (case rs of Inl e \<Rightarrow> Inl e | Inr as \<Rightarrow> Inr (a # as))), s2)))"

section \<open>The bundle task\<close>

text \<open>
  Modelled from the spec: webpack's \<^verbatim>\<open>Stats\<close> object is not in the repository. It holds
  the error-level and warning-level entries of a run (as their formatted texts) and the
  time of the run; \<^verbatim>\<open>hasErrors\<close> says that there is an error-level entry;
  \<^verbatim>\<open>toString(options)\<close> renders the entries the options select, leaving out every
  warning for which \<^verbatim>\<open>warningsFilter\<close> returns true. The rendering is kept structured
  (which entries are shown) rather than as one coloured text.
\<close>

record stats =
  errors :: "js_text list"
  warnings :: "js_text list"
  compile_time :: nat

record stats_options =
  opt_all :: bool
  opt_timings :: bool
  opt_errors :: bool
  opt_warnings :: bool
  warningsFilter :: "js_text \<Rightarrow> bool"
  opt_colors :: bool

record rendered_stats =
  shown_time :: "nat option"
  shown_errors :: "js_text list"
  shown_warnings :: "js_text list"

definition hasErrors :: "stats \<Rightarrow> bool" where
  "hasErrors st = (errors st \<noteq> [])"

definition toString :: "stats_options \<Rightarrow> stats \<Rightarrow> rendered_stats" where
  "toString opts st =
     \<lparr> shown_time = (if opt_all opts \<or> opt_timings opts then Some (compile_time st) else None),
       shown_errors = (if opt_all opts \<or> opt_errors opts then errors st else []),
       shown_warnings =
         (if opt_all opts \<or> opt_warnings opts
          then filter (\<lambda>w. \<not> warningsFilter opts w) (warnings st) else []) \<rparr>"

text \<open>
  Lines 23-33. (The fields of the options carry the prefix \<open>opt_\<close> where the name of the
  source is taken.)
\<close>

definition WEBPACK_STATS_OPTIONS :: stats_options where
  "WEBPACK_STATS_OPTIONS =
     \<lparr> opt_all = False, opt_timings = True, opt_errors = True, opt_warnings = True,
       warningsFilter = (\<lambda>warning. rx_test MONACO_WORKER_WARNING warning),
       opt_colors = True \<rparr>"

definition logWebpackStats :: "stats \<Rightarrow> rendered_stats list \<Rightarrow> rendered_stats list" where
  "logWebpackStats st lg = lg @ [toString WEBPACK_STATS_OPTIONS st]"

text \<open>
  Lines 35-44. The argument is what \<^verbatim>\<open>compiler.run\<close> hands to its callback: an error, or
  the statistics of the run. The result is the log and the outcome of the task.
\<close>

definition webpack :: "error + stats \<Rightarrow> rendered_stats list \<times> (error + unit)" where
  "webpack run =
     (case run of
        Inl err \<Rightarrow> ([], Inl err)
      | Inr st \<Rightarrow>
          (let lg = logWebpackStats st [] in
           if hasErrors st then (lg, Inl (Error ''Failed to compile'')) else (lg, Inr ())))"

section \<open>The code generators\<close>

text \<open>
  Lines 108-137. The packages \<^verbatim>\<open>graphql\<close>, \<^verbatim>\<open>@gql2ts\<close> and \<^verbatim>\<open>prettier\<close> are
  parameters: parsing a schema may throw, resolving the formatting configuration may be
  rejected (or give no configuration), generating and formatting the code may throw.
\<close>

record ('sch, 'res, 'opt) gql_tools =
  buildSchema :: "string \<Rightarrow> error + 'sch"
  graphql :: "'sch \<Rightarrow> 'res"
  resolveConfig :: "string \<Rightarrow> string \<Rightarrow> error + 'opt option"
  generateNamespace :: "'res \<Rightarrow> (string \<Rightarrow> error + string) \<Rightarrow> error + string"
  format :: "string \<Rightarrow> 'opt option \<Rightarrow> error + string"

definition GRAPHQL_SCHEMA_PATH :: "string \<Rightarrow> string" where
  "GRAPHQL_SCHEMA_PATH dirname = dirname @ ''/cmd/frontend/graphqlbackend/schema.graphql''"

definition graphQLTypes :: "('sch, 'res, 'opt) gql_tools \<Rightarrow> string \<Rightarrow> unit io" where
  "graphQLTypes tools dirname =
     await (readFile (GRAPHQL_SCHEMA_PATH dirname)) (\<lambda>schemaStr.
     await (settled (buildSchema tools schemaStr)) (\<lambda>schema.
     let result = graphql tools schema in
     await (settled (resolveConfig tools dirname (dirname @ ''/prettier.config.js'')))
       (\<lambda>formatOptions.
     await (settled (generateNamespace tools result (\<lambda>code. format tools code formatOptions)))
       (\<lambda>namespace.
     let typings = ''export type ID = string'' @ [CHR 0x0A, CHR 0x0A] @ namespace in
     writeFile (dirname @ ''/src/backend/graphqlschema.ts'') typings))))"

text \<open>Lines 142-163. \<^verbatim>\<open>JSON.parse\<close> and \<^verbatim>\<open>json-schema-to-typescript\<close> are parameters.\<close>

record 'j json_tools =
  JSON_parse :: "string \<Rightarrow> error + 'j"
  compileJSONSchema :: "'j \<Rightarrow> string \<Rightarrow> string \<Rightarrow> error + string"

definition SCHEMA_FILES :: "string list" where
  "SCHEMA_FILES = [''json-schema'', ''settings'', ''site'', ''extension'']"

definition schema_file :: "'j json_tools \<Rightarrow> string \<Rightarrow> string \<Rightarrow> unit list io" where
  "schema_file tools dirname file =
     await (readFile (dirname @ ''/schema/'' @ file @ ''.schema.json'')) (\<lambda>schema0.
     let schema = rewrite_refs schema0 in
     await (settled (JSON_parse tools schema)) (\<lambda>parsed.
     await (settled (compileJSONSchema tools parsed ''settings.schema'' (dirname @ ''/schema'')))
       (\<lambda>types.
     promise_all
       [writeFile (dirname @ ''/src/schema/'' @ file @ ''.schema.d.ts'') types,
        writeFile (dirname @ ''/src/schema/'' @ file @ ''.schema.json'') schema])))"

definition schema :: "'j json_tools \<Rightarrow> string \<Rightarrow> unit io" where
  "schema tools dirname =
     await (promise_all [mkdirp (dirname @ ''/src/schema''), mkdirp (dirname @ ''/dist/schema'')])
       (\<lambda>_.
     await (promise_all (map (schema_file tools dirname) SCHEMA_FILES)) (\<lambda>_.
     settled (Inr ())))"

section \<open>The unused-exports check\<close>

text \<open>
  Lines 183-192: the loop over the extensions. \<^verbatim>\<open>path.resolve\<close> is a parameter; a
  rejected \<^verbatim>\<open>stat\<close> is caught and the loop goes on.
\<close>

fun resolve_extension ::
  "(string \<Rightarrow> string \<Rightarrow> string) \<Rightarrow> string \<Rightarrow> string \<Rightarrow> string list \<Rightarrow> string io" where
  "resolve_extension resolve dirname file [] s = (Inr file, s)"
| "resolve_extension resolve dirname file (ext # exts) s =
     (let fullPath = resolve dirname (file @ ''.'' @ ext) in
      case stat fullPath s of
        (Inr _, s') \<Rightarrow> (Inr fullPath, s')
      | (Inl err, s') \<Rightarrow> resolve_extension resolve dirname file exts s')"

text \<open>
  \<^verbatim>\<open>analysis[file]\<close> for a key of the object. (Another \<open>file\<close> would give
  \<^verbatim>\<open>undefined\<close>; the script only asks for keys.)
\<close>

definition unused_of :: "(string, string list) fmap \<Rightarrow> string \<Rightarrow> string list" where
  "unused_of analysis file = (case fmlookup analysis file of Some names \<Rightarrow> names | None \<Rightarrow> [])"

definition UNUSED_EXPORTS_HEADER :: string where
  "UNUSED_EXPORTS_HEADER = ''Unused exports found (must unexport or remove):''"

text \<open>
  Lines 171-203. The argument \<open>tsUnusedExports\<close> is what the call of the package
  \<^verbatim>\<open>ts-unused-exports\<close> on the files that \<^verbatim>\<open>globby\<close> finds gives: an exception (or
  the rejection of \<^verbatim>\<open>globby\<close>), or an object from file names to the names of their
  unused exports. \<^verbatim>\<open>Object.keys(analysis).sort()\<close> is the sorted list of its
  keys (the default order of \<^verbatim>\<open>sort\<close> compares strings by their code units).
\<close>

definition unusedExports ::
  "(string \<Rightarrow> string \<Rightarrow> string) \<Rightarrow> string \<Rightarrow> error + (string, string list) fmap \<Rightarrow> unit io" where
  "unusedExports resolve dirname tsUnusedExports =
     await (settled tsUnusedExports) (\<lambda>analysis.
     let filesWithUnusedExports = sorted_list_of_fset (fmdom analysis) in
     if length filesWithUnusedExports > 0 then
       await (promise_all
                (map (\<lambda>file. resolve_extension resolve dirname file [''ts'', ''tsx''])
                   filesWithUnusedExports)) (\<lambda>filesWithExtensions.
       settled (Inl (PluginError ''ts-unused-exports''
         (join [CHR 0x0A, CHR 0x09]
            (UNUSED_EXPORTS_HEADER #
             map (\<lambda>i. (filesWithExtensions ! i) @ '': '' @
                        join '' '' (unused_of analysis (filesWithUnusedExports ! i)))
               [0 ..< length filesWithExtensions])))))
     else settled (Inr ()))"

section \<open>The watch tasks\<close>

text \<open>
  Lines 101-105 and 165-169. The promise a watch task awaits is created with an executor
  that never calls \<^verbatim>\<open>resolve\<close> and registers \<^verbatim>\<open>reject\<close> as the listener of the watcher's
  \<^verbatim>\<open>error\<close> event. A promise is settled once: a later \<^verbatim>\<open>reject\<close> changes nothing.
\<close>

datatype promise_state = Unsettled | Fulfilled | Rejected error

datatype watcher_event = Change string | WatcherError error

definition reject :: "error \<Rightarrow> promise_state \<Rightarrow> promise_state" where
  "reject e p = (case p of Unsettled \<Rightarrow> Rejected e | _ \<Rightarrow> p)"

fun on_watcher_event :: "promise_state \<Rightarrow> watcher_event \<Rightarrow> promise_state" where
  "on_watcher_event p (Change path) = p"
| "on_watcher_event p (WatcherError e) = reject e p"

definition watch_promise :: "watcher_event list \<Rightarrow> promise_state" where
  "watch_promise evs = foldl on_watcher_event Unsettled evs"

text \<open>
  The outcome of the task after the watcher has emitted \<open>evs\<close>: \<open>None\<close> while the
  awaited promise is not settled (the task has not returned).
\<close>

definition await_promise :: "promise_state \<Rightarrow> (error + unit) option" where
  "await_promise p =
     (case p of Unsettled \<Rightarrow> None | Fulfilled \<Rightarrow> Some (Inr ()) | Rejected e \<Rightarrow> Some (Inl e))"

definition watchGraphQLTypes :: "watcher_event list \<Rightarrow> (error + unit) option" where
  "watchGraphQLTypes evs = await_promise (watch_promise evs)"

definition watchSchema :: "watcher_event list \<Rightarrow> (error + unit) option" where
  "watchSchema evs = await_promise (watch_promise evs)"

section \<open>The task graph\<close>

datatype task_name =
  Schema | GraphQLTypes | Webpack | Phabricator | WebpackServe
  | WatchSchema | WatchGraphQLTypes | WatchPhabricatorFiles

datatype task = Leaf task_name | Series "task list" | Parallel "task list"

text \<open>
  Lines 216-236. \<open>WatchPhabricatorFiles\<close> is the async function inside
  \<^verbatim>\<open>watchPhabricator\<close> that starts watching the extension's files.
\<close>

definition watchPhabricator :: task where
  "watchPhabricator = Series [Leaf Phabricator, Leaf WatchPhabricatorFiles]"

definition build :: task where
  "build =
     Parallel [Series [Parallel [Leaf Schema, Leaf GraphQLTypes],
                       Parallel [Leaf Webpack, Leaf Phabricator]]]"

definition watch :: task where
  "watch =
     Series [Parallel [Leaf Schema, Leaf GraphQLTypes],
             Parallel [Leaf WatchSchema, Leaf WatchGraphQLTypes, Leaf WebpackServe,
                       watchPhabricator]]"

text \<open>
  Modelled from the spec: \<^verbatim>\<open>gulp.series\<close> and \<^verbatim>\<open>gulp.parallel\<close> are not in the
  repository. A sequential group runs its members in listed order, each one completing
  before the next starts, and starts none after a member has failed. A parallel group
  starts all its members immediately; a failed member fails the group and the members
  already started go on. A run of a graph is driven by the completions of its running
  tasks (each one succeeds or fails); what starts next follows from the graph.
\<close>

datatype status = Pending | Running | Done | Failed

datatype exec = ELeaf task_name status | ESeries "exec list" | EParallel "exec list"

datatype event = Start task_name | End task_name | Fail task_name

fun init :: "task \<Rightarrow> exec" where
  "init (Leaf n) = ELeaf n Pending"
| "init (Series ts) = ESeries (map init ts)"
| "init (Parallel ts) = EParallel (map init ts)"

fun succeeded :: "exec \<Rightarrow> bool" where
  "succeeded (ELeaf n s) = (s = Done)"
| "succeeded (ESeries ts) = list_all succeeded ts"
| "succeeded (EParallel ts) = list_all succeeded ts"

fun failed :: "exec \<Rightarrow> bool" where
  "failed (ELeaf n s) = (s = Failed)"
| "failed (ESeries ts) = list_ex failed ts"
| "failed (EParallel ts) = list_ex failed ts"

fun running :: "exec \<Rightarrow> task_name list" where
  "running (ELeaf n s) = (if s = Running then [n] else [])"
| "running (ESeries ts) = concat (map running ts)"
| "running (EParallel ts) = concat (map running ts)"

text \<open>Starting what is due: the events are the tasks started, in order.\<close>

fun advance :: "exec \<Rightarrow> exec \<times> event list"
  and advance_par :: "exec list \<Rightarrow> exec list \<times> event list"
  and advance_ser :: "exec list \<Rightarrow> exec list \<times> event list" where
  "advance (ELeaf n s) = (if s = Pending then (ELeaf n Running, [Start n]) else (ELeaf n s, []))"
| "advance (ESeries ts) = (case advance_ser ts of (ts', ev) \<Rightarrow> (ESeries ts', ev))"
| "advance (EParallel ts) = (case advance_par ts of (ts', ev) \<Rightarrow> (EParallel ts', ev))"
| "advance_par [] = ([], [])"
| "advance_par (t # ts) =
     (case advance t of (t', e1) \<Rightarrow>
        (case advance_par ts of (ts', e2) \<Rightarrow> (t' # ts', e1 @ e2)))"
| "advance_ser [] = ([], [])"
| "advance_ser (t # ts) =
     (case advance t of (t', e1) \<Rightarrow>
        if succeeded t' then (case advance_ser ts of (ts', e2) \<Rightarrow> (t' # ts', e1 @ e2))
        else (t' # ts, e1))"

text \<open>The running task \<open>n\<close> completes with status \<open>r\<close>.\<close>

fun settle :: "task_name \<Rightarrow> status \<Rightarrow> exec \<Rightarrow> exec" where
  "settle n r (ELeaf m s) = (if m = n \<and> s = Running then ELeaf m r else ELeaf m s)"
| "settle n r (ESeries ts) = ESeries (map (settle n r) ts)"
| "settle n r (EParallel ts) = EParallel (map (settle n r) ts)"

text \<open>
  One completion: \<open>(n, True)\<close> is the success of the running task \<open>n\<close>, \<open>(n, False)\<close>
  its failure. \<open>None\<close> when \<open>n\<close> is not running.
\<close>

definition complete :: "task_name \<times> bool \<Rightarrow> exec \<Rightarrow> (exec \<times> event list) option" where
  "complete c x =
     (case c of (n, ok) \<Rightarrow>
        if n \<in> set (running x) then
          (case advance (settle n (if ok then Done else Failed) x) of
             (x', started) \<Rightarrow> Some (x', (if ok then End n else Fail n) # started))
        else None)"

fun run :: "exec \<times> event list \<Rightarrow> (task_name \<times> bool) list \<Rightarrow> (exec \<times> event list) option" where
  "run (x, tr) [] = Some (x, tr)"
| "run (x, tr) (c # cs) =
     (case complete c x of None \<Rightarrow> None | Some (x', evs) \<Rightarrow> run (x', tr @ evs) cs)"

text \<open>
  Invoking a task and letting the completions \<open>cs\<close> happen: the state reached and the
  events so far, in order.
\<close>

definition execute :: "task \<Rightarrow> (task_name \<times> bool) list \<Rightarrow> (exec \<times> event list) option" where
  "execute t cs = run (advance (init t)) cs"

section \<open>Notions for stating and proving the properties\<close>

subsection \<open>The reference rewrite\<close>

text \<open>
  The prefix is this address followed by the replacement: \<open>ABS_REF = SETTINGS_SCHEMA_URL @ REL_REF\<close>.
\<close>

definition SETTINGS_SCHEMA_URL :: string where
  "SETTINGS_SCHEMA_URL = ''https://sourcegraph.com/v1/settings.schema.json''"

subsection \<open>Runs of the task graph\<close>

text \<open>
  Every occurrence of the event \<open>b\<close> in a trace has an occurrence of \<open>a\<close> before it:
  \<open>b\<close> does not occur before the first \<open>a\<close>.
\<close>

fun precedes :: "event \<Rightarrow> event \<Rightarrow> event list \<Rightarrow> bool" where
  "precedes a b [] = True"
| "precedes a b (e # es) = (e \<noteq> b \<and> (e = a \<or> precedes a b es))"

text \<open>
  The states of a run of \<open>build\<close>, \<open>watch\<close> and \<open>watchPhabricator\<close> have the shape
  of the graph, with a status at every leaf; the invariants of the proofs below are
  stated over these statuses.
\<close>

definition build_state :: "status \<Rightarrow> status \<Rightarrow> status \<Rightarrow> status \<Rightarrow> exec" where
  "build_state a b c d =
     EParallel [ESeries [EParallel [ELeaf Schema a, ELeaf GraphQLTypes b],
                         EParallel [ELeaf Webpack c, ELeaf Phabricator d]]]"

definition build_inv :: "exec \<times> event list \<Rightarrow> bool" where
  "build_inv xt = (case xt of (x, tr) \<Rightarrow>
     (\<exists>a b c d. x = build_state a b c d
        \<and> (a = Done \<longrightarrow> End Schema \<in> set tr) \<and> (b = Done \<longrightarrow> End GraphQLTypes \<in> set tr))
     \<and> precedes (End Schema) (Start Webpack) tr
     \<and> precedes (End GraphQLTypes) (Start Webpack) tr
     \<and> precedes (End Schema) (Start Phabricator) tr
     \<and> precedes (End GraphQLTypes) (Start Phabricator) tr)"

definition watch_state ::
  "status \<Rightarrow> status \<Rightarrow> status \<Rightarrow> status \<Rightarrow> status \<Rightarrow> status \<Rightarrow> status \<Rightarrow> exec" where
  "watch_state a b c d e f g =
     ESeries [EParallel [ELeaf Schema a, ELeaf GraphQLTypes b],
              EParallel [ELeaf WatchSchema c, ELeaf WatchGraphQLTypes d, ELeaf WebpackServe e,
                         ESeries [ELeaf Phabricator f, ELeaf WatchPhabricatorFiles g]]]"

definition watch_inv :: "exec \<times> event list \<Rightarrow> bool" where
  "watch_inv xt = (case xt of (x, tr) \<Rightarrow>
     (\<exists>a b c d e f g. x = watch_state a b c d e f g
        \<and> (f = Done \<longrightarrow> End Phabricator \<in> set tr)
        \<and> (End Schema \<in> set tr \<longrightarrow> a = Done)
        \<and> (End GraphQLTypes \<in> set tr \<longrightarrow> b = Done)
        \<and> (a = Done \<and> b = Done \<longrightarrow> f \<noteq> Pending)
        \<and> (f \<noteq> Pending \<longrightarrow> Start Phabricator \<in> set tr)
        \<and> (Fail WatchSchema \<in> set tr \<longrightarrow> c = Failed)
        \<and> (Fail WatchGraphQLTypes \<in> set tr \<longrightarrow> d = Failed))
     \<and> precedes (End Phabricator) (Start WatchPhabricatorFiles) tr)"

definition watchPhabricator_state :: "status \<Rightarrow> status \<Rightarrow> exec" where
  "watchPhabricator_state f g = ESeries [ELeaf Phabricator f, ELeaf WatchPhabricatorFiles g]"

definition watchPhabricator_inv :: "exec \<times> event list \<Rightarrow> bool" where
  "watchPhabricator_inv xt = (case xt of (x, tr) \<Rightarrow>
     (\<exists>f g. x = watchPhabricator_state f g \<and> (f = Done \<longrightarrow> End Phabricator \<in> set tr))
     \<and> (\<exists>rest. tr = Start Phabricator # rest)
     \<and> precedes (End Phabricator) (Start WatchPhabricatorFiles) tr)"

text \<open>
  The errors among the events of a watcher, in order.
\<close>

fun reported_errors :: "watcher_event list \<Rightarrow> error list" where
  "reported_errors [] = []"
| "reported_errors (Change path # evs) = reported_errors evs"
| "reported_errors (WatcherError e # evs) = e # reported_errors evs"

subsection \<open>What a regular expression matches\<close>

text \<open>
  The texts a regular expression matches from their first to their last character.
\<close>

fun spans :: "rx_item list \<Rightarrow> js_text \<Rightarrow> bool" where
  "spans [] m = (m = [])"
| "spans (Lit c # r) m = (\<exists>t. m = c # t \<and> spans r t)"
| "spans (Dot # r) m = (\<exists>x t. m = x # t \<and> \<not> is_line_terminator x \<and> spans r t)"
| "spans (DotStar # r) m =
     (\<exists>u t. m = u @ t \<and> \<not> list_ex is_line_terminator u \<and> spans r t)"

subsection \<open>The files the schema task reads and writes\<close>

text \<open>
  What the schema task has done for one schema file, between the file systems \<open>s\<close>
  and \<open>s'\<close>: the file was read, the rewritten text parsed and compiled, and both results
  are in \<^verbatim>\<open>src/schema\<close>.
\<close>

definition schema_file_written :: "'j json_tools \<Rightarrow> string \<Rightarrow> fs \<Rightarrow> fs \<Rightarrow> string \<Rightarrow> bool" where
  "schema_file_written tools dirname s s' file =
     (\<exists>src parsed types.
        files s (dirname @ ''/schema/'' @ file @ ''.schema.json'') = Some src
        \<and> JSON_parse tools (rewrite_refs src) = Inr parsed
        \<and> compileJSONSchema tools parsed ''settings.schema'' (dirname @ ''/schema'') = Inr types
        \<and> files s' (dirname @ ''/src/schema/'' @ file @ ''.schema.d.ts'') = Some types
        \<and> files s' (dirname @ ''/src/schema/'' @ file @ ''.schema.json'') = Some (rewrite_refs src))"

subsection \<open>The path a report line starts with\<close>

text \<open>
  \<^verbatim>\<open>stat\<close> succeeds on a path that is a file or a directory.
\<close>

definition path_exists :: "fs \<Rightarrow> string \<Rightarrow> bool" where
  "path_exists s p = (files s p \<noteq> None \<or> p \<in> dirs s)"

text \<open>
  The first of \<^verbatim>\<open>file.ts\<close> and \<^verbatim>\<open>file.tsx\<close>, resolved against the script's
  directory, that exists; otherwise the name as the analysis gave it.
\<close>

definition reported_path ::
  "(string \<Rightarrow> string \<Rightarrow> string) \<Rightarrow> string \<Rightarrow> fs \<Rightarrow> string \<Rightarrow> string" where
  "reported_path resolve dirname s file =
     (if path_exists s (resolve dirname (file @ ''.ts'')) then resolve dirname (file @ ''.ts'')
      else if path_exists s (resolve dirname (file @ ''.tsx'')) then resolve dirname (file @ ''.tsx'')
      else file)"

section \<open>Concrete inputs\<close>

text \<open>Small inputs on which the tasks are run in the examples below.\<close>

text \<open>
  Four warnings: the one webpack gives for the worker script of monaco-editor; the same
  warning for another module; the first with the line separator U+2028 inside the path;
  and the first with another line between the path and the reason.
\<close>

definition example_worker_warning :: js_text where
  "example_worker_warning =
     units ''./node_modules/monaco-editor/esm/vs/editor/common/services/editorSimpleWorker.js''
     @ [0x0A] @ units ''Critical dependency: the request of a dependency is an expression''"

definition example_other_warning :: js_text where
  "example_other_warning =
     units ''./src/app.tsx''
     @ [0x0A] @ units ''Critical dependency: the request of a dependency is an expression''"

definition example_split_warning :: js_text where
  "example_split_warning =
     units ''./node_modules/monaco-editor/esm'' @ [0x2028]
     @ units ''/vs/editor/common/services/editorSimpleWorker.js''
     @ [0x0A] @ units ''Critical dependency: the request of a dependency is an expression''"

definition example_late_warning :: js_text where
  "example_late_warning =
     units ''./node_modules/monaco-editor/esm/vs/editor/common/services/editorSimpleWorker.js''
     @ [0x0A] @ units ''Module not found'' @ [0x0A]
     @ units ''Critical dependency: the request of a dependency is an expression''"

definition example_gql_tools :: "(string, string, unit) gql_tools" where
  "example_gql_tools =
     \<lparr> buildSchema = (\<lambda>src. if src = ''type Query {'' then Inl (Error ''Syntax Error'') else Inr src),
       graphql = (\<lambda>sch. sch),
       resolveConfig = (\<lambda>dir config. Inl (Error ''prettier.config.js not found'')),
       generateNamespace = (\<lambda>res post. post res),
       format = (\<lambda>code opts. Inr code) \<rparr>"

definition example_fs :: "(string \<times> string) list \<Rightarrow> fs" where
  "example_fs fl = \<lparr> files = map_of fl, dirs = {}, denied = {} \<rparr>"

text \<open>
  Modelled from the spec: \<^verbatim>\<open>JSON.parse\<close> and \<^verbatim>\<open>json-schema-to-typescript\<close> are not
  in the repository. The stand-in for \<^verbatim>\<open>JSON.parse\<close> accepts the JSON texts (the
  grammar of ECMA-404) and throws on every other text. It reads the text one character at
  a time, and keeps what it expects next and the objects and arrays that are still open.
\<close>

datatype json_ctx = InObject | InArray

datatype json_mode =
    JValue | JArrayStart | JObjectStart | JKey | JColon | JAfter
  | JString bool | JEscape bool | JUnicode bool nat
  | JLiteral string
  | JMinus | JZero | JInt | JFracStart | JFrac | JExpStart | JExpSign | JExp
  | JBad

definition json_ws :: "char \<Rightarrow> bool" where
  "json_ws c = (c \<in> set [CHR '' '', CHR 0x09, CHR 0x0A, CHR 0x0D])"

definition json_digit :: "char \<Rightarrow> bool" where
  "json_digit c = (c \<in> set ''0123456789'')"

definition json_hex :: "char \<Rightarrow> bool" where
  "json_hex c = (c \<in> set ''0123456789abcdefABCDEF'')"

text \<open>
  The first character of a value.
\<close>

definition json_value :: "json_ctx list \<Rightarrow> char \<Rightarrow> json_mode \<times> json_ctx list" where
  "json_value st c =
     (if c = CHR ''{'' then (JObjectStart, InObject # st)
      else if c = CHR ''['' then (JArrayStart, InArray # st)
      else if c = CHR 0x22 then (JString False, st)
      else if c = CHR ''-'' then (JMinus, st)
      else if c = CHR ''0'' then (JZero, st)
      else if json_digit c then (JInt, st)
      else if c = CHR ''t'' then (JLiteral ''rue'', st)
      else if c = CHR ''f'' then (JLiteral ''alse'', st)
      else if c = CHR ''n'' then (JLiteral ''ull'', st)
      else (JBad, st))"

text \<open>
  The character after a complete value: a separator, or the end of the innermost open
  object or array.
\<close>

definition json_after :: "json_ctx list \<Rightarrow> char \<Rightarrow> json_mode \<times> json_ctx list" where
  "json_after st c =
     (if json_ws c then (JAfter, st)
      else if c = CHR '','' then
        (case st of [] \<Rightarrow> (JBad, st) | InObject # _ \<Rightarrow> (JKey, st) | InArray # _ \<Rightarrow> (JValue, st))
      else if c = CHR ''}'' then
        (case st of InObject # st' \<Rightarrow> (JAfter, st') | _ \<Rightarrow> (JBad, st))
      else if c = CHR '']'' then
        (case st of InArray # st' \<Rightarrow> (JAfter, st') | _ \<Rightarrow> (JBad, st))
      else (JBad, st))"

fun json_step :: "json_mode \<times> json_ctx list \<Rightarrow> char \<Rightarrow> json_mode \<times> json_ctx list" where
  "json_step (JValue, st) c = (if json_ws c then (JValue, st) else json_value st c)"
| "json_step (JArrayStart, st) c =
     (if json_ws c then (JArrayStart, st)
      else if c = CHR '']'' then (JAfter, tl st)
      else json_value st c)"
| "json_step (JObjectStart, st) c =
     (if json_ws c then (JObjectStart, st)
      else if c = CHR ''}'' then (JAfter, tl st)
      else if c = CHR 0x22 then (JString True, st)
      else (JBad, st))"
| "json_step (JKey, st) c =
     (if json_ws c then (JKey, st)
      else if c = CHR 0x22 then (JString True, st)
      else (JBad, st))"
| "json_step (JColon, st) c =
     (if json_ws c then (JColon, st)
      else if c = CHR '':'' then (JValue, st)
      else (JBad, st))"
| "json_step (JAfter, st) c = json_after st c"
| "json_step (JString k, st) c =
     (if c = CHR 0x22 then (if k then JColon else JAfter, st)
      else if c = CHR 0x5C then (JEscape k, st)
      else if of_char c < (0x20 :: nat) then (JBad, st)
      else (JString k, st))"
| "json_step (JEscape k, st) c =
     (if c \<in> set [CHR 0x22, CHR 0x5C, CHR ''/'', CHR ''b'', CHR ''f'', CHR ''n'', CHR ''r'', CHR ''t'']
      then (JString k, st)
      else if c = CHR ''u'' then (JUnicode k 4, st)
      else (JBad, st))"
| "json_step (JUnicode k n, st) c =
     (if json_hex c then (if n \<le> 1 then JString k else JUnicode k (n - 1), st) else (JBad, st))"
| "json_step (JLiteral rest, st) c =
     (case rest of
        [] \<Rightarrow> (JBad, st)
      | x # xs \<Rightarrow> if c = x then (if xs = [] then JAfter else JLiteral xs, st) else (JBad, st))"
| "json_step (JMinus, st) c =
     (if c = CHR ''0'' then (JZero, st) else if json_digit c then (JInt, st) else (JBad, st))"
| "json_step (JZero, st) c =
     (if c = CHR ''.'' then (JFracStart, st)
      else if c = CHR ''e'' \<or> c = CHR ''E'' then (JExpStart, st)
      else json_after st c)"
| "json_step (JInt, st) c =
     (if json_digit c then (JInt, st)
      else if c = CHR ''.'' then (JFracStart, st)
      else if c = CHR ''e'' \<or> c = CHR ''E'' then (JExpStart, st)
      else json_after st c)"
| "json_step (JFracStart, st) c = (if json_digit c then (JFrac, st) else (JBad, st))"
| "json_step (JFrac, st) c =
     (if json_digit c then (JFrac, st)
      else if c = CHR ''e'' \<or> c = CHR ''E'' then (JExpStart, st)
      else json_after st c)"
| "json_step (JExpStart, st) c =
     (if c = CHR ''+'' \<or> c = CHR ''-'' then (JExpSign, st)
      else if json_digit c then (JExp, st)
      else (JBad, st))"
| "json_step (JExpSign, st) c = (if json_digit c then (JExp, st) else (JBad, st))"
| "json_step (JExp, st) c = (if json_digit c then (JExp, st) else json_after st c)"
| "json_step (JBad, st) c = (JBad, st)"

text \<open>
  A JSON text is one value: at its end no object or array is open, and the value is
  complete (a number ends where the text ends).
\<close>

definition json_valid :: "string \<Rightarrow> bool" where
  "json_valid text =
     (case foldl json_step (JValue, []) text of
        (m, st) \<Rightarrow> st = [] \<and> m \<in> set [JAfter, JZero, JInt, JFrac, JExp])"

text \<open>
  The parsed value is kept as the text it was parsed from; the stand-in for the compiler
  returns a comment that names the schema.
\<close>

definition example_json_tools :: "string json_tools" where
  "example_json_tools =
     \<lparr> JSON_parse = (\<lambda>text. if json_valid text then Inr text
                            else Inl (Error ''SyntaxError: not a JSON text'')),
       compileJSONSchema = (\<lambda>parsed name cwd. Inr (''/* '' @ name @ '' */'')) \<rparr>"

text \<open>
  A repository with the four schema files; the settings schema holds an absolute
  reference. \<open>example_settings_rewritten\<close> is the same schema with the reference made
  relative.
\<close>

definition example_settings_schema :: string where
  \<open>example_settings_schema =
     ''{"$ref": "https://sourcegraph.com/v1/settings.schema.json#/definitions/x"}''\<close>

definition example_schema_fs :: fs where
  "example_schema_fs =
     \<lparr> files = map_of
         [(''/repo/schema/json-schema.schema.json'', ''{}''),
          (''/repo/schema/settings.schema.json'', example_settings_schema),
          (''/repo/schema/site.schema.json'', ''{}''),
          (''/repo/schema/extension.schema.json'', ''{}'')],
       dirs = {''/repo'', ''/repo/schema''},
       denied = {} \<rparr>"

definition example_settings_rewritten :: string where
  \<open>example_settings_rewritten = ''{"$ref": "#/definitions/x"}''\<close>

definition example_resolve :: "string \<Rightarrow> string \<Rightarrow> string" where
  "example_resolve dir rel = dir @ ''/'' @ rel"

definition example_sources :: fs where
  "example_sources = example_fs
     [(''/repo/src/foo.tsx'', ''export const bar = 1''),
      (''/repo/src/baz.ts'', ''export const qux = 1; export const quux = 2''),
      (''/repo/src/baz.tsx'', ''export const other = 1'')]"

definition example_analysis :: "(string, string list) fmap" where
  "example_analysis =
     fmap_of_list [(''src/foo'', [''bar'']), (''src/baz'', [''qux'', ''quux'']),
                   (''src/gone'', [''x''])]"

text \<open>
  The analysis of the specification's example.
\<close>

definition example_report :: "(string, string list) fmap" where
  "example_report = fmap_of_list [(''src/foo'', [''bar'']), (''src/baz'', [''qux'', ''quux''])]"

chapter \<open>Properties\<close>

section \<open>The reference rewrite\<close>

text \<open>
  The pattern has no border: no proper non-empty suffix of it is a prefix of it. So two
  occurrences of it in a text never overlap, and the left-to-right scan meets every one.
\<close>

lemma ABS_REF_length: "length ABS_REF = 61"
  by (simp add: ABS_REF_def)

lemma ABS_REF_borders: "list_all (\<lambda>k. \<not> prefix (drop k ABS_REF) ABS_REF) [1..<61]"
  by code_simp

lemma ABS_REF_unbordered:
  assumes "0 < k" "k < 61"
  shows "\<not> prefix (drop k ABS_REF) ABS_REF"
proof -
  from assms have "k \<in> set [1..<61]" by simp
  with ABS_REF_borders show ?thesis
    unfolding list_all_iff by blast
qed

lemma no_overlap:
  assumes p0: "prefix ABS_REF s" and k: "0 < k" "k < 61"
  shows "\<not> prefix ABS_REF (drop k s)"
proof
  assume pk: "prefix ABS_REF (drop k s)"
  from p0 obtain t where s: "s = ABS_REF @ t" by (auto simp: prefix_def)
  from k have "drop k s = drop k ABS_REF @ t"
    by (simp add: s ABS_REF_length)
  with pk have "prefix ABS_REF (drop k ABS_REF @ t)" by simp
  then have "prefix ABS_REF (drop k ABS_REF) \<or> prefix (drop k ABS_REF) ABS_REF"
    by (metis prefix_append prefixI)
  moreover have "\<not> prefix ABS_REF (drop k ABS_REF)"
  proof
    assume "prefix ABS_REF (drop k ABS_REF)"
    then have "length ABS_REF \<le> length (drop k ABS_REF)" by (rule prefix_length_le)
    with k show False by (simp add: ABS_REF_length)
  qed
  ultimately show False using ABS_REF_unbordered [OF k] by blast
qed

lemma count_skip:
  assumes "\<And>k. j \<le> k \<Longrightarrow> k < n \<Longrightarrow> \<not> prefix p (drop k s)" "j \<le> n" "n \<le> length s"
  shows "count_occurrences p (drop j s) = count_occurrences p (drop n s)"
  using assms
proof (induction "n - j" arbitrary: j)
  case 0
  then show ?case by simp
next
  case (Suc d)
  then have jn: "j < n" by simp
  with Suc.prems have jl: "j < length s" by simp
  have eq: "drop j s = s ! j # drop (Suc j) s"
    using jl by (simp add: Cons_nth_drop_Suc)
  have "\<not> prefix p (drop j s)" using Suc.prems(1) [of j] jn by simp
  then have "\<not> prefix p (s ! j # drop (Suc j) s)" using eq by simp
  then have "count_occurrences p (s ! j # drop (Suc j) s) = count_occurrences p (drop (Suc j) s)"
    by simp
  then have "count_occurrences p (drop j s) = count_occurrences p (drop (Suc j) s)"
    using eq by simp
  also have "\<dots> = count_occurrences p (drop n s)"
  proof (rule Suc.hyps(1))
    show "d = n - Suc j" using Suc.hyps(2) by simp
    show "\<And>k. Suc j \<le> k \<Longrightarrow> k < n \<Longrightarrow> \<not> prefix p (drop k s)"
      using Suc.prems(1) by simp
    show "Suc j \<le> n" using jn by simp
    show "n \<le> length s" by fact
  qed
  finally show ?case .
qed

lemma count_after_match:
  assumes "prefix ABS_REF (c # cs)"
  shows "count_occurrences ABS_REF cs = count_occurrences ABS_REF (drop 61 (c # cs))"
proof -
  have len: "61 \<le> length (c # cs)"
    using prefix_length_le [OF assms] by (simp add: ABS_REF_length)
  have "count_occurrences ABS_REF (drop 1 (c # cs)) = count_occurrences ABS_REF (drop 61 (c # cs))"
  proof (rule count_skip)
    show "\<And>k. 1 \<le> k \<Longrightarrow> k < 61 \<Longrightarrow> \<not> prefix ABS_REF (drop k (c # cs))"
      using no_overlap [OF assms] by simp
    show "(1::nat) \<le> 61" by simp
    show "61 \<le> length (c # cs)" by fact
  qed
  then show ?thesis by simp
qed

lemma join_Cons_nonempty: "us \<noteq> [] \<Longrightarrow> join sep (u # us) = u @ sep @ join sep us"
  by (cases us) simp_all

lemma join_Cons_head: "join sep ((c # u) # us) = c # join sep (u # us)"
  by (cases us) simp_all

lemma rewrite_refs_segments:
  "\<exists>us. s = join ABS_REF us \<and> replace_global ABS_REF REL_REF s = join REL_REF us
     \<and> length us = Suc (count_occurrences ABS_REF s)"
proof (induction ABS_REF REL_REF s rule: replace_global.induct)
  case 1
  have "[] = join ABS_REF [[]] \<and> replace_global ABS_REF REL_REF [] = join REL_REF [[]]
      \<and> length [[]::string] = Suc (count_occurrences ABS_REF [])"
    by (simp add: ABS_REF_def)
  then show ?case by blast
next
  case (2 c cs)
  have ne: "ABS_REF \<noteq> []" by (simp add: ABS_REF_def)
  show ?case
  proof (cases "prefix ABS_REF (c # cs)")
    case True
    from "2.hyps"(2) [OF ne True] obtain us where
      us: "drop (length ABS_REF) (c # cs) = join ABS_REF us"
        "replace_global ABS_REF REL_REF (drop (length ABS_REF) (c # cs)) = join REL_REF us"
        "length us = Suc (count_occurrences ABS_REF (drop (length ABS_REF) (c # cs)))"
      by blast
    then have nonempty: "us \<noteq> []" by auto
    from True have "c # cs = ABS_REF @ drop (length ABS_REF) (c # cs)"
      by (metis append_eq_conv_conj prefix_def)
    then have a: "c # cs = join ABS_REF ([] # us)"
      using us(1) nonempty by (simp add: join_Cons_nonempty)
    have b: "replace_global ABS_REF REL_REF (c # cs) = join REL_REF ([] # us)"
      using True ne us(2) nonempty by (simp add: join_Cons_nonempty)
    have c: "length ([] # us) = Suc (count_occurrences ABS_REF (c # cs))"
      using True us(3) count_after_match [OF True] by (simp add: ABS_REF_length)
    from a b c show ?thesis by blast
  next
    case False
    from "2.hyps"(3) [OF ne False] obtain us where
      us: "cs = join ABS_REF us" "replace_global ABS_REF REL_REF cs = join REL_REF us"
        "length us = Suc (count_occurrences ABS_REF cs)"
      by blast
    then obtain u us' where u: "us = u # us'" by (cases us) auto
    have a: "c # cs = join ABS_REF ((c # u) # us')"
      using us(1) u by (simp add: join_Cons_head)
    have b: "replace_global ABS_REF REL_REF (c # cs) = join REL_REF ((c # u) # us')"
      using False ne us(2) u by (simp add: join_Cons_head)
    have c: "length ((c # u) # us') = Suc (count_occurrences ABS_REF (c # cs))"
      using False us(3) u by simp
    from a b c show ?thesis by blast
  qed
qed

lemma replace_global_fixed:
  "p \<noteq> [] \<Longrightarrow> \<not> sublist p s \<Longrightarrow> replace_global p r s = s"
proof (induction p r s rule: replace_global.induct)
  case (1 p r)
  then show ?case by simp
next
  case (2 p r c cs)
  from "2.prems" have "\<not> prefix p (c # cs)" "\<not> sublist p cs"
    by (auto simp: sublist_Cons_right)
  with 2 show ?case by simp
qed

lemma replace_global_length_le:
  "p \<noteq> [] \<Longrightarrow> length r \<le> length p \<Longrightarrow> length (replace_global p r s) \<le> length s"
proof (induction p r s rule: replace_global.induct)
  case (1 p r)
  then show ?case by simp
next
  case (2 p r c cs)
  show ?case
  proof (cases "prefix p (c # cs)")
    case True
    then have "length p \<le> length (c # cs)" by (rule prefix_length_le)
    moreover have "length (replace_global p r (drop (length p) (c # cs)))
        \<le> length (drop (length p) (c # cs))"
      using "2.IH"(2) "2.prems" True by blast
    ultimately show ?thesis using True "2.prems" by simp
  next
    case False
    then show ?thesis using 2 by simp
  qed
qed

lemma replace_global_shrinks:
  "p \<noteq> [] \<Longrightarrow> length r < length p \<Longrightarrow> sublist p s \<Longrightarrow> length (replace_global p r s) < length s"
proof (induction p r s rule: replace_global.induct)
  case (1 p r)
  then show ?case by simp
next
  case (2 p r c cs)
  show ?case
  proof (cases "prefix p (c # cs)")
    case True
    then have "length p \<le> length (c # cs)" by (rule prefix_length_le)
    moreover have "length (replace_global p r (drop (length p) (c # cs)))
        \<le> length (drop (length p) (c # cs))"
      using replace_global_length_le [of p r "drop (length p) (c # cs)"] "2.prems" by simp
    ultimately show ?thesis using True "2.prems" by simp
  next
    case False
    with "2.prems" have "sublist p cs" by (auto simp: sublist_Cons_right)
    then show ?thesis using 2 False by simp
  qed
qed

lemma replace_global_fixed_iff:
  assumes "p \<noteq> []" "length r < length p"
  shows "replace_global p r s = s \<longleftrightarrow> \<not> sublist p s"
proof
  assume eq: "replace_global p r s = s"
  show "\<not> sublist p s"
  proof
    assume "sublist p s"
    from replace_global_shrinks [OF assms this] eq show False by simp
  qed
next
  assume "\<not> sublist p s"
  with assms(1) show "replace_global p r s = s" by (rule replace_global_fixed)
qed

lemma ABS_REF_split: "ABS_REF = SETTINGS_SCHEMA_URL @ REL_REF"
  by (simp add: ABS_REF_def SETTINGS_SCHEMA_URL_def REL_REF_def)

lemma SETTINGS_SCHEMA_URL_length: "length SETTINGS_SCHEMA_URL = 47"
  by (simp add: SETTINGS_SCHEMA_URL_def)

lemma REL_REF_length: "length REL_REF = 14"
  by (simp add: REL_REF_def)

lemma ABS_REF_ne: "ABS_REF \<noteq> []"
  by (simp add: ABS_REF_def)

text \<open>Facts about the two constants, by computation.\<close>

lemma hash_position:
  "list_all (\<lambda>j. hd (drop j ABS_REF) = CHR ''#'' \<longrightarrow> j = 47) [0..<61]"
  by code_simp

lemma no_match_in_url:
  "list_all (\<lambda>k. \<not> prefix ABS_REF (drop k SETTINGS_SCHEMA_URL @ ABS_REF)) [0..<47]"
  by code_simp

lemma no_long_match_in_prefix:
  "list_all (\<lambda>k. drop k ABS_REF \<noteq> take (61 - k) (SETTINGS_SCHEMA_URL @ ABS_REF)) [0..<61]"
  by code_simp

lemma hd_ABS_REF_notin_REL_REF: "hd ABS_REF \<notin> set REL_REF"
  by (simp add: ABS_REF_def REL_REF_def)

lemma sublist_skip_foreign:
  assumes "p \<noteq> []" "hd p \<notin> set r"
  shows "sublist p (r @ x) \<longleftrightarrow> sublist p x"
  using assms(2)
proof (induction r)
  case Nil
  show ?case by simp
next
  case (Cons a r)
  have "\<not> prefix p (a # r @ x)"
  proof
    assume "prefix p (a # r @ x)"
    with assms(1) have "hd p = a" by (cases p) auto
    with Cons.prems show False by simp
  qed
  with Cons show ?case by (simp add: sublist_Cons_right)
qed

lemma sublist_drop_unmatched:
  assumes "\<And>k. k < n \<Longrightarrow> \<not> prefix q (drop k s)" "n \<le> length s"
  shows "sublist q s \<longleftrightarrow> sublist q (drop n s)"
  using assms
proof (induction n arbitrary: s)
  case 0
  show ?case by simp
next
  case (Suc n)
  from Suc.prems(2) obtain c cs where s: "s = c # cs" by (cases s) auto
  from Suc.prems(1) [of 0] have "\<not> prefix q (c # cs)" by (simp add: s)
  then have "sublist q s \<longleftrightarrow> sublist q cs" by (simp add: s sublist_Cons_right)
  also have "\<dots> \<longleftrightarrow> sublist q (drop n cs)"
  proof (rule Suc.IH)
    show "\<not> prefix q (drop k cs)" if "k < n" for k
      using Suc.prems(1) [of "Suc k"] that by (simp add: s)
    show "n \<le> length cs" using Suc.prems(2) by (simp add: s)
  qed
  finally show ?case by (simp add: s)
qed

lemma replace_global_keep_unmatched:
  assumes "p \<noteq> []" "\<And>k. k < n \<Longrightarrow> \<not> prefix p (drop k s)" "n \<le> length s"
  shows "replace_global p r s = take n s @ replace_global p r (drop n s)"
  using assms(2,3)
proof (induction n arbitrary: s)
  case 0
  show ?case by simp
next
  case (Suc n)
  from Suc.prems(2) obtain c cs where s: "s = c # cs" by (cases s) auto
  from Suc.prems(1) [of 0] have nm: "\<not> prefix p (c # cs)" by (simp add: s)
  have "replace_global p r cs = take n cs @ replace_global p r (drop n cs)"
  proof (rule Suc.IH)
    show "\<not> prefix p (drop k cs)" if "k < n" for k
      using Suc.prems(1) [of "Suc k"] that by (simp add: s)
    show "n \<le> length cs" using Suc.prems(2) by (simp add: s)
  qed
  with nm assms(1) show ?case by (simp add: s)
qed

lemma prefix_of_long:
  assumes "length p \<le> length x"
  shows "prefix p (x @ y) \<longleftrightarrow> prefix p x"
  using assms by (auto simp: prefix_append dest: prefix_length_le)

lemma prefix_of_short:
  assumes "prefix q (x @ y)" "length x \<le> length q"
  shows "x = take (length x) q"
proof -
  from assms(1) obtain z where "x @ y = q @ z" by (auto simp: prefix_def)
  then have "take (length x) (x @ y) = take (length x) (q @ z)" by simp
  with assms(2) show ?thesis by simp
qed

lemma rewrite_url_then_ref:
  "rewrite_refs (SETTINGS_SCHEMA_URL @ ABS_REF @ rest) = ABS_REF @ rewrite_refs rest"
proof -
  let ?s = "SETTINGS_SCHEMA_URL @ ABS_REF @ rest"
  have none: "\<not> prefix ABS_REF (drop k ?s)" if "k < 47" for k
  proof -
    from that have "k \<in> set [0..<47]" by simp
    with no_match_in_url have n: "\<not> prefix ABS_REF (drop k SETTINGS_SCHEMA_URL @ ABS_REF)"
      unfolding list_all_iff by blast
    have eq: "drop k ?s = (drop k SETTINGS_SCHEMA_URL @ ABS_REF) @ rest"
      using that by (simp add: SETTINGS_SCHEMA_URL_length)
    have len: "length ABS_REF \<le> length (drop k SETTINGS_SCHEMA_URL @ ABS_REF)"
      by simp
    from prefix_of_long [OF len, of rest] n
    have "\<not> prefix ABS_REF ((drop k SETTINGS_SCHEMA_URL @ ABS_REF) @ rest)" by blast
    then show ?thesis unfolding eq .
  qed
  have "replace_global ABS_REF REL_REF ?s
      = take 47 ?s @ replace_global ABS_REF REL_REF (drop 47 ?s)"
  proof (rule replace_global_keep_unmatched [OF ABS_REF_ne])
    show "\<And>k. k < 47 \<Longrightarrow> \<not> prefix ABS_REF (drop k ?s)" by (rule none)
    show "47 \<le> length ?s" by (simp add: SETTINGS_SCHEMA_URL_length)
  qed
  also have "take 47 ?s = SETTINGS_SCHEMA_URL"
    by (simp add: SETTINGS_SCHEMA_URL_length)
  also have "drop 47 ?s = ABS_REF @ rest"
    by (simp add: SETTINGS_SCHEMA_URL_length)
  also have "replace_global ABS_REF REL_REF (ABS_REF @ rest)
      = REL_REF @ replace_global ABS_REF REL_REF rest"
  proof -
    obtain c cs where c: "ABS_REF @ rest = c # cs"
      using ABS_REF_ne by (cases "ABS_REF @ rest") auto
    have "prefix ABS_REF (c # cs)" unfolding c [symmetric] by simp
    moreover have "drop (length ABS_REF) (c # cs) = rest" unfolding c [symmetric] by simp
    ultimately have "replace_global ABS_REF REL_REF (c # cs)
        = REL_REF @ replace_global ABS_REF REL_REF rest"
      using ABS_REF_ne by simp
    then show ?thesis by (simp only: c)
  qed
  finally show ?thesis
    by (simp add: rewrite_refs_def ABS_REF_split)
qed

lemma prefix_of_rewritten:
  assumes "j < 61" "prefix (drop j ABS_REF) (replace_global ABS_REF REL_REF t)"
  shows "prefix (drop j ABS_REF) t
     \<or> (j \<le> 47 \<and> prefix (drop j SETTINGS_SCHEMA_URL @ ABS_REF) t)"
  using assms
proof (induction ABS_REF REL_REF t arbitrary: j rule: replace_global.induct)
  case 1
  then show ?case by (simp add: ABS_REF_ne ABS_REF_length)
next
  case (2 c cs)
  from "2.prems"(1) have dj: "drop j ABS_REF = ABS_REF ! j # drop (Suc j) ABS_REF"
    by (simp add: Cons_nth_drop_Suc ABS_REF_length)
  show ?case
  proof (cases "prefix ABS_REF (c # cs)")
    case True
    then have "replace_global ABS_REF REL_REF (c # cs)
        = REL_REF @ replace_global ABS_REF REL_REF (drop (length ABS_REF) (c # cs))"
      using ABS_REF_ne by simp
    with "2.prems"(2) have "hd (drop j ABS_REF) = CHR ''#''"
      by (simp add: dj REL_REF_def)
    moreover from "2.prems"(1) have "j \<in> set [0..<61]" by simp
    ultimately have j: "j = 47"
      using hash_position unfolding list_all_iff by blast
    then have "drop j SETTINGS_SCHEMA_URL @ ABS_REF = ABS_REF"
      by (simp add: SETTINGS_SCHEMA_URL_length)
    with True j show ?thesis by simp
  next
    case False
    then have "replace_global ABS_REF REL_REF (c # cs) = c # replace_global ABS_REF REL_REF cs"
      using ABS_REF_ne by simp
    with "2.prems"(2) have c: "ABS_REF ! j = c"
      and rest: "prefix (drop (Suc j) ABS_REF) (replace_global ABS_REF REL_REF cs)"
      by (simp_all add: dj)
    show ?thesis
    proof (cases "Suc j < 61")
      case False
      with "2.prems"(1) have "drop (Suc j) ABS_REF = []" by (simp add: ABS_REF_length)
      then show ?thesis by (simp add: dj c)
    next
      case True
      from "2.hyps"(3) [OF ABS_REF_ne \<open>\<not> prefix ABS_REF (c # cs)\<close> True rest]
      show ?thesis
      proof
        assume "prefix (drop (Suc j) ABS_REF) cs"
        then show ?thesis by (simp add: dj c)
      next
        assume a: "Suc j \<le> 47 \<and> prefix (drop (Suc j) SETTINGS_SCHEMA_URL @ ABS_REF) cs"
        then have "j < 47" by simp
        then have "drop j SETTINGS_SCHEMA_URL
            = SETTINGS_SCHEMA_URL ! j # drop (Suc j) SETTINGS_SCHEMA_URL"
          by (simp add: Cons_nth_drop_Suc SETTINGS_SCHEMA_URL_length)
        moreover have "SETTINGS_SCHEMA_URL ! j = ABS_REF ! j"
          using \<open>j < 47\<close> by (simp add: ABS_REF_split nth_append SETTINGS_SCHEMA_URL_length)
        ultimately show ?thesis using a c by simp
      qed
    qed
  qed
qed

text \<open>
  The output of a pass contains the prefix exactly when the input contains it right after
  \<^verbatim>\<open>https://sourcegraph.com/v1/settings.schema.json\<close>: the replacement then completes
  that address to a new occurrence.
\<close>

lemma sublist_rewritten_iff:
  "sublist ABS_REF (replace_global ABS_REF REL_REF s)
   \<longleftrightarrow> sublist (SETTINGS_SCHEMA_URL @ ABS_REF) s"
proof (induction ABS_REF REL_REF s rule: replace_global.induct)
  case 1
  show ?case by (simp add: ABS_REF_ne)
next
  case (2 c cs)
  let ?q = "SETTINGS_SCHEMA_URL @ ABS_REF"
  show ?case
  proof (cases "prefix ABS_REF (c # cs)")
    case True
    let ?rest = "drop (length ABS_REF) (c # cs)"
    from True have s: "c # cs = ABS_REF @ ?rest"
      by (metis append_eq_conv_conj prefix_def)
    have len: "61 \<le> length (c # cs)"
      using prefix_length_le [OF True] by (simp add: ABS_REF_length)
    have "sublist ABS_REF (replace_global ABS_REF REL_REF (c # cs))
        \<longleftrightarrow> sublist ABS_REF (REL_REF @ replace_global ABS_REF REL_REF ?rest)"
      using True ABS_REF_ne by simp
    also have "\<dots> \<longleftrightarrow> sublist ABS_REF (replace_global ABS_REF REL_REF ?rest)"
      using ABS_REF_ne hd_ABS_REF_notin_REL_REF by (rule sublist_skip_foreign)
    also have "\<dots> \<longleftrightarrow> sublist ?q ?rest"
      using "2.hyps"(2) [OF ABS_REF_ne True] .
    also have "\<dots> \<longleftrightarrow> sublist ?q (c # cs)"
    proof -
      have none: "\<not> prefix ?q (drop k (c # cs))" if k: "k < 61" for k
      proof
        assume p: "prefix ?q (drop k (c # cs))"
        have "drop k (c # cs) = drop k ABS_REF @ ?rest"
          using k by (subst s) (simp add: ABS_REF_length)
        with p have "prefix ?q (drop k ABS_REF @ ?rest)" by simp
        then have "drop k ABS_REF = take (length (drop k ABS_REF)) ?q"
          by (rule prefix_of_short) (simp add: ABS_REF_length SETTINGS_SCHEMA_URL_length)
        then have "drop k ABS_REF = take (61 - k) ?q"
          by (simp add: ABS_REF_length)
        moreover from k have "k \<in> set [0..<61]" by simp
        ultimately show False
          using no_long_match_in_prefix unfolding list_all_iff by blast
      qed
      have "sublist ?q (c # cs) \<longleftrightarrow> sublist ?q (drop 61 (c # cs))"
        using none len by (rule sublist_drop_unmatched)
      then show ?thesis by (simp add: ABS_REF_length)
    qed
    finally show ?thesis .
  next
    case False
    have step: "replace_global ABS_REF REL_REF (c # cs) = c # replace_global ABS_REF REL_REF cs"
      using False ABS_REF_ne by simp
    have ih: "sublist ABS_REF (replace_global ABS_REF REL_REF cs) \<longleftrightarrow> sublist ?q cs"
      using "2.hyps"(3) [OF ABS_REF_ne False] .
    have head: "prefix ABS_REF (replace_global ABS_REF REL_REF (c # cs))
        \<longleftrightarrow> prefix ?q (c # cs)"
    proof
      assume "prefix ABS_REF (replace_global ABS_REF REL_REF (c # cs))"
      then have "prefix (drop 0 ABS_REF) (replace_global ABS_REF REL_REF (c # cs))" by simp
      from prefix_of_rewritten [OF _ this] False show "prefix ?q (c # cs)" by simp
    next
      assume "prefix ?q (c # cs)"
      then obtain rest where "c # cs = SETTINGS_SCHEMA_URL @ ABS_REF @ rest"
        by (auto simp: prefix_def)
      then have "replace_global ABS_REF REL_REF (c # cs)
          = ABS_REF @ replace_global ABS_REF REL_REF rest"
        using rewrite_url_then_ref [of rest] by (simp add: rewrite_refs_def)
      then show "prefix ABS_REF (replace_global ABS_REF REL_REF (c # cs))" by simp
    qed
    have "sublist ABS_REF (replace_global ABS_REF REL_REF (c # cs))
        \<longleftrightarrow> prefix ABS_REF (replace_global ABS_REF REL_REF (c # cs))
            \<or> sublist ABS_REF (replace_global ABS_REF REL_REF cs)"
      by (simp only: step sublist_Cons_right)
    also have "\<dots> \<longleftrightarrow> prefix ?q (c # cs) \<or> sublist ?q cs"
      by (simp only: head ih)
    also have "\<dots> \<longleftrightarrow> sublist ?q (c # cs)"
      by (simp add: sublist_Cons_right)
    finally show ?thesis .
  qed
qed

text \<open>
  C1 (amended). For every input, the rewrite replaces every occurrence of
  \<^verbatim>\<open>https://sourcegraph.com/v1/settings.schema.json#/definitions/\<close> with
  \<^verbatim>\<open>#/definitions/\<close> and leaves all other characters unchanged: the input is a list
  of segments joined by the prefix, with as many joints as the prefix has occurrences in
  the input, and the output is the same segments joined by \<^verbatim>\<open>#/definitions/\<close>.
  Applying the rewrite twice gives the same as applying it once exactly when the input
  contains no occurrence of \<^verbatim>\<open>https://sourcegraph.com/v1/settings.schema.json\<close>
  immediately followed by the prefix; that is, exactly when the output of the first pass
  contains no occurrence of the prefix.
\<close>

theorem rewrite_refs_segments_and_idempotence:
  "(\<exists>us. s = join ABS_REF us \<and> rewrite_refs s = join REL_REF us
      \<and> length us = Suc (count_occurrences ABS_REF s))
   \<and> (rewrite_refs (rewrite_refs s) = rewrite_refs s
        \<longleftrightarrow> \<not> sublist (SETTINGS_SCHEMA_URL @ ABS_REF) s)
   \<and> (rewrite_refs (rewrite_refs s) = rewrite_refs s
        \<longleftrightarrow> \<not> sublist ABS_REF (rewrite_refs s))"
proof -
  have "ABS_REF \<noteq> []" "length REL_REF < length ABS_REF"
    by (simp_all add: ABS_REF_def REL_REF_def)
  then have "replace_global ABS_REF REL_REF t = t \<longleftrightarrow> \<not> sublist ABS_REF t" for t
    by (rule replace_global_fixed_iff)
  then show ?thesis
    using rewrite_refs_segments [of s] sublist_rewritten_iff [of s]
    by (simp add: rewrite_refs_def)
qed

text \<open>
  C1 as stated fails in its last part: a replacement can complete a new occurrence of the
  prefix with the text before it, which only a second pass rewrites. On the input below
  the first pass gives
  \<^verbatim>\<open>https://sourcegraph.com/v1/settings.schema.json#/definitions/#/definitions/\<close> and
  the second \<^verbatim>\<open>#/definitions/#/definitions/\<close>.
\<close>

theorem rewrite_refs_not_idempotent:
  "rewrite_refs (rewrite_refs
      ''https://sourcegraph.com/v1/settings.schema.jsonhttps://sourcegraph.com/v1/settings.schema.json#/definitions/#/definitions/'')
   \<noteq> rewrite_refs
      ''https://sourcegraph.com/v1/settings.schema.jsonhttps://sourcegraph.com/v1/settings.schema.json#/definitions/#/definitions/''"
  by code_simp

section \<open>The task graph\<close>

text \<open>
  \<open>precedes\<close> says what it should.
\<close>

lemma precedes_iff:
  "precedes a b tr \<longleftrightarrow> (\<forall>pre post. tr = pre @ b # post \<longrightarrow> a \<in> set pre)"
proof (induction tr)
  case Nil
  show ?case by simp
next
  case (Cons e es)
  show ?case
  proof
    assume p: "precedes a b (e # es)"
    show "\<forall>pre post. e # es = pre @ b # post \<longrightarrow> a \<in> set pre"
    proof (intro allI impI)
      fix pre post
      assume eq: "e # es = pre @ b # post"
      from p have "e \<noteq> b" by simp
      with eq obtain pre' where pre: "pre = e # pre'" and es: "es = pre' @ b # post"
        by (cases pre) auto
      show "a \<in> set pre"
      proof (cases "e = a")
        case True
        with pre show ?thesis by simp
      next
        case False
        with p have "precedes a b es" by simp
        with Cons.IH es have "a \<in> set pre'" by blast
        with pre show ?thesis by simp
      qed
    qed
  next
    assume q: "\<forall>pre post. e # es = pre @ b # post \<longrightarrow> a \<in> set pre"
    have 1: "e \<noteq> b"
    proof
      assume "e = b"
      then have "e # es = [] @ b # es" by simp
      with q have "a \<in> set []" by blast
      then show False by simp
    qed
    have 2: "precedes a b es" if "e \<noteq> a"
    proof -
      have "a \<in> set pre'" if "es = pre' @ b # post" for pre' post
      proof -
        from that have "e # es = (e # pre') @ b # post" by simp
        with q have "a \<in> set (e # pre')" by blast
        with \<open>e \<noteq> a\<close> show ?thesis by auto
      qed
      with Cons.IH show ?thesis by blast
    qed
    from 1 2 show "precedes a b (e # es)" by auto
  qed
qed

lemma precedes_Nil: "precedes a b []"
  by simp

lemma precedes_append_absent:
  assumes "precedes a b tr" "b \<notin> set new"
  shows "precedes a b (tr @ new)"
  unfolding precedes_iff
proof (intro allI impI)
  fix pre post
  assume eq: "tr @ new = pre @ b # post"
  then consider us where "tr = pre @ us" "us @ new = b # post"
    | us where "tr @ us = pre" "new = us @ b # post"
    by (auto simp: append_eq_append_conv2)
  then show "a \<in> set pre"
  proof cases
    case 1
    with assms(2) obtain us' where "us = b # us'"
      by (cases us) auto
    with 1 assms(1) show ?thesis by (simp add: precedes_iff)
  next
    case 2
    with assms(2) show ?thesis by auto
  qed
qed

lemma precedes_append_seen:
  assumes "precedes a b tr" "a \<in> set tr"
  shows "precedes a b (tr @ new)"
  unfolding precedes_iff
proof (intro allI impI)
  fix pre post
  assume eq: "tr @ new = pre @ b # post"
  then consider us where "tr = pre @ us" "us @ new = b # post"
    | us where "tr @ us = pre" "new = us @ b # post"
    by (auto simp: append_eq_append_conv2)
  then show "a \<in> set pre"
  proof cases
    case 1
    show ?thesis
    proof (cases us)
      case Nil
      with 1 assms(2) show ?thesis by simp
    next
      case (Cons u us')
      with 1 assms(1) show ?thesis by (simp add: precedes_iff)
    qed
  next
    case 2
    with assms(2) show ?thesis by auto
  qed
qed

lemma precedes_step:
  assumes "precedes a b tr" "e \<noteq> b" "b \<in> set started \<Longrightarrow> a \<in> set (tr @ [e])"
  shows "precedes a b (tr @ e # started)"
proof -
  have 1: "precedes a b (tr @ [e])"
    using assms(1,2) by (intro precedes_append_absent) simp_all
  have "precedes a b ((tr @ [e]) @ started)"
  proof (cases "b \<in> set started")
    case True
    with assms(3) have "a \<in> set (tr @ [e])" by blast
    with 1 show ?thesis by (rule precedes_append_seen)
  next
    case False
    with 1 show ?thesis by (rule precedes_append_absent)
  qed
  then show ?thesis by simp
qed

lemma build_start:
  "advance (init build) =
     (build_state Running Running Pending Pending, [Start Schema, Start GraphQLTypes])"
  by (simp add: build_def build_state_def)

text \<open>
  One completion in a run of \<open>build\<close>: the bundle task and the asset sync start only in
  a state where both code generators are done.
\<close>

lemma build_complete:
  assumes "complete (n, ok) (build_state a b c d) = Some (x', evs)"
  shows "\<exists>a' b' c' d' started.
     x' = build_state a' b' c' d' \<and> evs = (if ok then End n else Fail n) # started
     \<and> (a' = Done \<longrightarrow> a = Done \<or> (n = Schema \<and> ok))
     \<and> (b' = Done \<longrightarrow> b = Done \<or> (n = GraphQLTypes \<and> ok))
     \<and> (Start Webpack \<in> set started \<or> Start Phabricator \<in> set started
          \<longrightarrow> a' = Done \<and> b' = Done)"
  using assms
  by (cases n; cases ok)
     (auto simp: complete_def build_state_def split: if_splits)

lemma precedes_absent: "b \<notin> set tr \<Longrightarrow> precedes a b tr"
  using precedes_append_absent [OF precedes_Nil, of b tr a] by simp

lemma build_inv_start: "build_inv (advance (init build))"
proof -
  have "\<exists>a b c d. build_state Running Running Pending Pending = build_state a b c d
      \<and> (a = Done \<longrightarrow> End Schema \<in> set [Start Schema, Start GraphQLTypes])
      \<and> (b = Done \<longrightarrow> End GraphQLTypes \<in> set [Start Schema, Start GraphQLTypes])"
    by (simp add: build_state_def)
  then show ?thesis
    by (simp add: build_start build_inv_def precedes_absent)
qed

lemma build_inv_complete:
  assumes inv: "build_inv (x, tr)" and step: "complete c x = Some (x', evs)"
  shows "build_inv (x', tr @ evs)"
proof -
  obtain n ok where c: "c = (n, ok)" by (cases c)
  from inv obtain a b c d where x: "x = build_state a b c d"
    and a: "a = Done \<longrightarrow> End Schema \<in> set tr"
    and b: "b = Done \<longrightarrow> End GraphQLTypes \<in> set tr"
    and p: "precedes (End Schema) (Start Webpack) tr"
      "precedes (End GraphQLTypes) (Start Webpack) tr"
      "precedes (End Schema) (Start Phabricator) tr"
      "precedes (End GraphQLTypes) (Start Phabricator) tr"
    by (auto simp: build_inv_def)
  from build_complete [OF step [unfolded c x]] obtain a' b' c' d' started where
    x': "x' = build_state a' b' c' d'" and evs: "evs = (if ok then End n else Fail n) # started"
    and a': "a' = Done \<longrightarrow> a = Done \<or> (n = Schema \<and> ok)"
    and b': "b' = Done \<longrightarrow> b = Done \<or> (n = GraphQLTypes \<and> ok)"
    and s: "Start Webpack \<in> set started \<or> Start Phabricator \<in> set started
          \<longrightarrow> a' = Done \<and> b' = Done"
    by blast
  let ?e = "if ok then End n else Fail n"
  have ea: "a' = Done \<longrightarrow> End Schema \<in> set (tr @ [?e])"
    using a a' by auto
  have eb: "b' = Done \<longrightarrow> End GraphQLTypes \<in> set (tr @ [?e])"
    using b b' by auto
  have q: "precedes (End Schema) (Start Webpack) (tr @ ?e # started)"
      "precedes (End GraphQLTypes) (Start Webpack) (tr @ ?e # started)"
      "precedes (End Schema) (Start Phabricator) (tr @ ?e # started)"
      "precedes (End GraphQLTypes) (Start Phabricator) (tr @ ?e # started)"
  proof -
    show "precedes (End Schema) (Start Webpack) (tr @ ?e # started)"
      using p(1)
    proof (rule precedes_step)
      show "?e \<noteq> Start Webpack" by simp
      show "Start Webpack \<in> set started \<Longrightarrow> End Schema \<in> set (tr @ [?e])"
        using s ea by blast
    qed
    show "precedes (End GraphQLTypes) (Start Webpack) (tr @ ?e # started)"
      using p(2)
    proof (rule precedes_step)
      show "?e \<noteq> Start Webpack" by simp
      show "Start Webpack \<in> set started \<Longrightarrow> End GraphQLTypes \<in> set (tr @ [?e])"
        using s eb by blast
    qed
    show "precedes (End Schema) (Start Phabricator) (tr @ ?e # started)"
      using p(3)
    proof (rule precedes_step)
      show "?e \<noteq> Start Phabricator" by simp
      show "Start Phabricator \<in> set started \<Longrightarrow> End Schema \<in> set (tr @ [?e])"
        using s ea by blast
    qed
    show "precedes (End GraphQLTypes) (Start Phabricator) (tr @ ?e # started)"
      using p(4)
    proof (rule precedes_step)
      show "?e \<noteq> Start Phabricator" by simp
      show "Start Phabricator \<in> set started \<Longrightarrow> End GraphQLTypes \<in> set (tr @ [?e])"
        using s eb by blast
    qed
  qed
  have r: "a' = Done \<longrightarrow> End Schema \<in> set (tr @ ?e # started)"
    "b' = Done \<longrightarrow> End GraphQLTypes \<in> set (tr @ ?e # started)"
    using ea eb by auto
  have "\<exists>a b c d. x' = build_state a b c d
        \<and> (a = Done \<longrightarrow> End Schema \<in> set (tr @ ?e # started))
        \<and> (b = Done \<longrightarrow> End GraphQLTypes \<in> set (tr @ ?e # started))"
    using x' r by (simp add: build_state_def)
  with q show ?thesis
    unfolding build_inv_def evs prod.case by (intro conjI)
qed

lemma build_inv_run:
  "build_inv xt \<Longrightarrow> run xt cs = Some xt' \<Longrightarrow> build_inv xt'"
proof (induction xt cs rule: run.induct)
  case (1 x tr)
  then show ?case by simp
next
  case (2 x tr c cs)
  from "2.prems"(2) obtain x1 evs where step: "complete c x = Some (x1, evs)"
    and rest: "run (x1, tr @ evs) cs = Some xt'"
    by (auto split: option.splits)
  from build_inv_complete [OF "2.prems"(1) step] have "build_inv (x1, tr @ evs)" .
  with "2.IH" step rest show ?case by simp
qed

text \<open>
  C2. In every run of \<open>build\<close>, whatever tasks complete, in whatever order and with
  whatever outcome: before any start of the bundle task (\<open>Webpack\<close>) or of the asset sync
  (\<open>Phabricator\<close>), the JSON-schema task and the GraphQL-types task have both run to
  completion (their \<open>End\<close> events are earlier in the trace).
\<close>

theorem build_codegen_before_bundle_and_sync:
  assumes "execute build cs = Some (x, tr)" and "tr = pre @ Start n # post"
    and "n = Webpack \<or> n = Phabricator"
  shows "End Schema \<in> set pre \<and> End GraphQLTypes \<in> set pre"
proof -
  from assms(1) have "build_inv (x, tr)"
    unfolding execute_def by (rule build_inv_run [OF build_inv_start])
  with assms(2,3) show ?thesis
    by (auto simp: build_inv_def precedes_iff)
qed

text \<open>
  The run in which the GraphQL-types task and then the JSON-schema task succeed: the bundle
  task and the asset sync start after both.
\<close>

theorem build_codegen_before_bundle_and_sync_witness:
  "execute build [(GraphQLTypes, True), (Schema, True)] =
     Some (build_state Done Done Running Running,
           [Start Schema, Start GraphQLTypes, End GraphQLTypes, End Schema]
           @ Start Webpack # [Start Phabricator])
   \<and> End Schema \<in> set [Start Schema, Start GraphQLTypes, End GraphQLTypes, End Schema]
   \<and> End GraphQLTypes \<in> set [Start Schema, Start GraphQLTypes, End GraphQLTypes, End Schema]"
proof -
  have run: "execute build [(GraphQLTypes, True), (Schema, True)] =
     Some (build_state Done Done Running Running,
           [Start Schema, Start GraphQLTypes, End GraphQLTypes, End Schema]
           @ Start Webpack # [Start Phabricator])"
    by (simp add: execute_def build_def build_state_def complete_def)
  from build_codegen_before_bundle_and_sync [OF run refl] run show ?thesis
    by blast
qed

lemma watch_start:
  "advance (init watch) =
     (watch_state Running Running Pending Pending Pending Pending Pending,
      [Start Schema, Start GraphQLTypes])"
  by (simp add: watch_def watchPhabricator_def watch_state_def)

text \<open>
  One completion in a run of \<open>watch\<close>.
\<close>

lemma watch_complete:
  assumes "complete (n, ok) (watch_state a b c d e f g) = Some (x', evs)"
  shows "\<exists>a' b' c' d' e' f' g' started.
     x' = watch_state a' b' c' d' e' f' g' \<and> evs = (if ok then End n else Fail n) # started
     \<and> (f' = Done \<longrightarrow> f = Done \<or> (n = Phabricator \<and> ok))
     \<and> (a = Done \<longrightarrow> a' = Done) \<and> (n = Schema \<and> ok \<longrightarrow> a' = Done)
     \<and> (b = Done \<longrightarrow> b' = Done) \<and> (n = GraphQLTypes \<and> ok \<longrightarrow> b' = Done)
     \<and> (a' = Done \<and> b' = Done \<longrightarrow> f' \<noteq> Pending)
     \<and> (f' \<noteq> Pending \<longrightarrow> f \<noteq> Pending \<or> Start Phabricator \<in> set started)
     \<and> (c = Failed \<longrightarrow> c' = Failed) \<and> (n = WatchSchema \<and> \<not> ok \<longrightarrow> c' = Failed)
     \<and> (d = Failed \<longrightarrow> d' = Failed) \<and> (n = WatchGraphQLTypes \<and> \<not> ok \<longrightarrow> d' = Failed)
     \<and> (Start WatchPhabricatorFiles \<in> set started \<longrightarrow> f' = Done)"
  using assms
  by (cases n; cases ok)
     (auto simp: complete_def watch_state_def split: if_splits)

lemma advance_starts:
  "set (snd (advance x)) \<subseteq> range Start"
  "set (snd (advance_par ts)) \<subseteq> range Start"
  "set (snd (advance_ser ts)) \<subseteq> range Start"
  by (induction x and ts and ts rule: advance_advance_par_advance_ser.induct)
     (auto split: prod.splits if_splits)

lemma complete_events:
  assumes "complete (n, ok) x = Some (x', evs)"
  shows "\<exists>started. evs = (if ok then End n else Fail n) # started \<and> set started \<subseteq> range Start"
proof -
  let ?y = "settle n (if ok then Done else Failed) x"
  from assms have "evs = (if ok then End n else Fail n) # snd (advance ?y)"
    by (auto simp: complete_def split: if_splits prod.splits)
  with advance_starts(1) [of ?y] show ?thesis by blast
qed

lemma watch_inv_start: "watch_inv (advance (init watch))"
proof -
  let ?tr = "[Start Schema, Start GraphQLTypes]"
  have "\<exists>a b c d e f g.
      watch_state Running Running Pending Pending Pending Pending Pending
        = watch_state a b c d e f g
      \<and> (f = Done \<longrightarrow> End Phabricator \<in> set ?tr)
      \<and> (End Schema \<in> set ?tr \<longrightarrow> a = Done)
      \<and> (End GraphQLTypes \<in> set ?tr \<longrightarrow> b = Done)
      \<and> (a = Done \<and> b = Done \<longrightarrow> f \<noteq> Pending)
      \<and> (f \<noteq> Pending \<longrightarrow> Start Phabricator \<in> set ?tr)
      \<and> (Fail WatchSchema \<in> set ?tr \<longrightarrow> c = Failed)
      \<and> (Fail WatchGraphQLTypes \<in> set ?tr \<longrightarrow> d = Failed)"
    by (simp add: watch_state_def)
  then show ?thesis
    by (simp add: watch_start watch_inv_def precedes_absent)
qed

lemma watch_inv_complete:
  assumes inv: "watch_inv (x, tr)" and step: "complete cmp x = Some (x', evs)"
  shows "watch_inv (x', tr @ evs)"
proof -
  obtain n ok where cmp: "cmp = (n, ok)" by (cases cmp)
  from inv have
    "(\<exists>a b c d e f g. x = watch_state a b c d e f g
        \<and> (f = Done \<longrightarrow> End Phabricator \<in> set tr)
        \<and> (End Schema \<in> set tr \<longrightarrow> a = Done)
        \<and> (End GraphQLTypes \<in> set tr \<longrightarrow> b = Done)
        \<and> (a = Done \<and> b = Done \<longrightarrow> f \<noteq> Pending)
        \<and> (f \<noteq> Pending \<longrightarrow> Start Phabricator \<in> set tr)
        \<and> (Fail WatchSchema \<in> set tr \<longrightarrow> c = Failed)
        \<and> (Fail WatchGraphQLTypes \<in> set tr \<longrightarrow> d = Failed))
     \<and> precedes (End Phabricator) (Start WatchPhabricatorFiles) tr"
    unfolding watch_inv_def prod.case .
  then obtain a b c d e f g where x: "x = watch_state a b c d e f g"
    and i: "f = Done \<longrightarrow> End Phabricator \<in> set tr"
      "End Schema \<in> set tr \<longrightarrow> a = Done"
      "End GraphQLTypes \<in> set tr \<longrightarrow> b = Done"
      "a = Done \<and> b = Done \<longrightarrow> f \<noteq> Pending"
      "f \<noteq> Pending \<longrightarrow> Start Phabricator \<in> set tr"
      "Fail WatchSchema \<in> set tr \<longrightarrow> c = Failed"
      "Fail WatchGraphQLTypes \<in> set tr \<longrightarrow> d = Failed"
    and p: "precedes (End Phabricator) (Start WatchPhabricatorFiles) tr"
    by (elim exE conjE) (rule that)
  let ?e = "if ok then End n else Fail n"
  from watch_complete [OF step [unfolded cmp x]] obtain a' b' c' d' e' f' g' started where
    x': "x' = watch_state a' b' c' d' e' f' g'" and evs: "evs = ?e # started"
    and s: "f' = Done \<longrightarrow> f = Done \<or> (n = Phabricator \<and> ok)"
      "a = Done \<longrightarrow> a' = Done" "n = Schema \<and> ok \<longrightarrow> a' = Done"
      "b = Done \<longrightarrow> b' = Done" "n = GraphQLTypes \<and> ok \<longrightarrow> b' = Done"
      "a' = Done \<and> b' = Done \<longrightarrow> f' \<noteq> Pending"
      "f' \<noteq> Pending \<longrightarrow> f \<noteq> Pending \<or> Start Phabricator \<in> set started"
      "c = Failed \<longrightarrow> c' = Failed" "n = WatchSchema \<and> \<not> ok \<longrightarrow> c' = Failed"
      "d = Failed \<longrightarrow> d' = Failed" "n = WatchGraphQLTypes \<and> \<not> ok \<longrightarrow> d' = Failed"
      "Start WatchPhabricatorFiles \<in> set started \<longrightarrow> f' = Done"
    by (elim exE conjE) (rule that)
  from complete_events [OF step [unfolded cmp]] evs have st: "set started \<subseteq> range Start"
    by simp
  then have nost: "End m \<notin> set started" "Fail m \<notin> set started" for m
    by auto
  have mem: "ev \<in> set (tr @ ?e # started) \<longleftrightarrow> ev \<in> set tr \<or> ev = ?e \<or> ev \<in> set started" for ev
    by auto
  have j1: "f' = Done \<longrightarrow> End Phabricator \<in> set (tr @ ?e # started)"
    using i(1) s(1) unfolding mem by auto
  have j2: "End Schema \<in> set (tr @ ?e # started) \<longrightarrow> a' = Done"
    using i(2) s(2,3) nost unfolding mem by (auto split: if_splits)
  have j3: "End GraphQLTypes \<in> set (tr @ ?e # started) \<longrightarrow> b' = Done"
    using i(3) s(4,5) nost unfolding mem by (auto split: if_splits)
  have j5: "f' \<noteq> Pending \<longrightarrow> Start Phabricator \<in> set (tr @ ?e # started)"
    using i(5) s(7) unfolding mem by auto
  have j6: "Fail WatchSchema \<in> set (tr @ ?e # started) \<longrightarrow> c' = Failed"
    using i(6) s(8,9) nost unfolding mem by (auto split: if_splits)
  have j7: "Fail WatchGraphQLTypes \<in> set (tr @ ?e # started) \<longrightarrow> d' = Failed"
    using i(7) s(10,11) nost unfolding mem by (auto split: if_splits)
  have q: "precedes (End Phabricator) (Start WatchPhabricatorFiles) (tr @ ?e # started)"
    using p
  proof (rule precedes_step)
    show "?e \<noteq> Start WatchPhabricatorFiles" by simp
    show "Start WatchPhabricatorFiles \<in> set started \<Longrightarrow> End Phabricator \<in> set (tr @ [?e])"
      using s(1,12) i(1) by auto
  qed
  have "\<exists>a b c d e f g. x' = watch_state a b c d e f g
        \<and> (f = Done \<longrightarrow> End Phabricator \<in> set (tr @ ?e # started))
        \<and> (End Schema \<in> set (tr @ ?e # started) \<longrightarrow> a = Done)
        \<and> (End GraphQLTypes \<in> set (tr @ ?e # started) \<longrightarrow> b = Done)
        \<and> (a = Done \<and> b = Done \<longrightarrow> f \<noteq> Pending)
        \<and> (f \<noteq> Pending \<longrightarrow> Start Phabricator \<in> set (tr @ ?e # started))
        \<and> (Fail WatchSchema \<in> set (tr @ ?e # started) \<longrightarrow> c = Failed)
        \<and> (Fail WatchGraphQLTypes \<in> set (tr @ ?e # started) \<longrightarrow> d = Failed)"
    using x' j1 j2 j3 s(6) j5 j6 j7 by blast
  with q show ?thesis
    unfolding watch_inv_def evs prod.case by (intro conjI)
qed

lemma watch_inv_run:
  "watch_inv xt \<Longrightarrow> run xt cs = Some xt' \<Longrightarrow> watch_inv xt'"
proof (induction xt cs rule: run.induct)
  case (1 x tr)
  then show ?case by simp
next
  case (2 x tr c cs)
  from "2.prems"(2) obtain x1 evs where step: "complete c x = Some (x1, evs)"
    and rest: "run (x1, tr @ evs) cs = Some xt'"
    by (auto split: option.splits)
  from watch_inv_complete [OF "2.prems"(1) step] have "watch_inv (x1, tr @ evs)" .
  with "2.IH" step rest show ?case by simp
qed

lemma watch_inv_execute: "execute watch cs = Some (x, tr) \<Longrightarrow> watch_inv (x, tr)"
  unfolding execute_def by (rule watch_inv_run [OF watch_inv_start])

lemma watchPhabricator_start:
  "advance (init watchPhabricator) = (watchPhabricator_state Running Pending, [Start Phabricator])"
  by (simp add: watchPhabricator_def watchPhabricator_state_def)

lemma watchPhabricator_complete:
  assumes "complete (n, ok) (watchPhabricator_state f g) = Some (x', evs)"
  shows "\<exists>f' g' started.
     x' = watchPhabricator_state f' g' \<and> evs = (if ok then End n else Fail n) # started
     \<and> (f' = Done \<longrightarrow> f = Done \<or> (n = Phabricator \<and> ok))
     \<and> (Start WatchPhabricatorFiles \<in> set started \<longrightarrow> f' = Done)"
  using assms
  by (cases n; cases ok)
     (auto simp: complete_def watchPhabricator_state_def split: if_splits)

lemma watchPhabricator_inv_start: "watchPhabricator_inv (advance (init watchPhabricator))"
proof -
  have "\<exists>f g. watchPhabricator_state Running Pending = watchPhabricator_state f g
      \<and> (f = Done \<longrightarrow> End Phabricator \<in> set [Start Phabricator])"
    by (simp add: watchPhabricator_state_def)
  then show ?thesis
    by (simp add: watchPhabricator_start watchPhabricator_inv_def precedes_absent)
qed

lemma watchPhabricator_inv_complete:
  assumes inv: "watchPhabricator_inv (x, tr)" and step: "complete cmp x = Some (x', evs)"
  shows "watchPhabricator_inv (x', tr @ evs)"
proof -
  obtain n ok where cmp: "cmp = (n, ok)" by (cases cmp)
  from inv have
    "(\<exists>f g. x = watchPhabricator_state f g \<and> (f = Done \<longrightarrow> End Phabricator \<in> set tr))
     \<and> (\<exists>rest. tr = Start Phabricator # rest)
     \<and> precedes (End Phabricator) (Start WatchPhabricatorFiles) tr"
    unfolding watchPhabricator_inv_def prod.case .
  then obtain f g rest where x: "x = watchPhabricator_state f g"
    and i: "f = Done \<longrightarrow> End Phabricator \<in> set tr"
    and h: "tr = Start Phabricator # rest"
    and p: "precedes (End Phabricator) (Start WatchPhabricatorFiles) tr"
    by (elim exE conjE) (rule that)
  let ?e = "if ok then End n else Fail n"
  from watchPhabricator_complete [OF step [unfolded cmp x]] obtain f' g' started where
    x': "x' = watchPhabricator_state f' g'" and evs: "evs = ?e # started"
    and s: "f' = Done \<longrightarrow> f = Done \<or> (n = Phabricator \<and> ok)"
      "Start WatchPhabricatorFiles \<in> set started \<longrightarrow> f' = Done"
    by (elim exE conjE) (rule that)
  have j: "f' = Done \<longrightarrow> End Phabricator \<in> set (tr @ ?e # started)"
    using i s(1) by auto
  have q: "precedes (End Phabricator) (Start WatchPhabricatorFiles) (tr @ ?e # started)"
    using p
  proof (rule precedes_step)
    show "?e \<noteq> Start WatchPhabricatorFiles" by simp
    show "Start WatchPhabricatorFiles \<in> set started \<Longrightarrow> End Phabricator \<in> set (tr @ [?e])"
      using s i by auto
  qed
  have k: "\<exists>rest'. tr @ ?e # started = Start Phabricator # rest'"
    using h by simp
  have "\<exists>f g. x' = watchPhabricator_state f g
      \<and> (f = Done \<longrightarrow> End Phabricator \<in> set (tr @ ?e # started))"
    using x' j by blast
  with k q show ?thesis
    unfolding watchPhabricator_inv_def evs prod.case by (intro conjI)
qed

lemma watchPhabricator_inv_run:
  "watchPhabricator_inv xt \<Longrightarrow> run xt cs = Some xt' \<Longrightarrow> watchPhabricator_inv xt'"
proof (induction xt cs rule: run.induct)
  case (1 x tr)
  then show ?case by simp
next
  case (2 x tr c cs)
  from "2.prems"(2) obtain x1 evs where step: "complete c x = Some (x1, evs)"
    and rest: "run (x1, tr @ evs) cs = Some xt'"
    by (auto split: option.splits)
  from watchPhabricator_inv_complete [OF "2.prems"(1) step]
  have "watchPhabricator_inv (x1, tr @ evs)" .
  with "2.IH" step rest show ?case by simp
qed

lemma watchPhabricator_inv_execute:
  "execute watchPhabricator cs = Some (x, tr) \<Longrightarrow> watchPhabricator_inv (x, tr)"
  unfolding execute_def by (rule watchPhabricator_inv_run [OF watchPhabricator_inv_start])

text \<open>
  C9 (amended). In every run of \<open>watchPhabricator\<close> the asset copy is the first thing
  started, and watching the extension's files starts only after the copy has run to
  completion; the same order holds where the task runs inside \<open>watch\<close>. An invocation of
  \<open>watch\<close> whose two code generators have both completed has started the asset copy
  (the graph has no event for a changed file: the copy does not wait for one).
\<close>

theorem watchPhabricator_sync_before_watching:
  "(execute watchPhabricator cs = Some (x, tr) \<longrightarrow>
      (\<exists>rest. tr = Start Phabricator # rest)
      \<and> precedes (End Phabricator) (Start WatchPhabricatorFiles) tr)
   \<and> (execute watch cs' = Some (x', tr') \<longrightarrow>
      precedes (End Phabricator) (Start WatchPhabricatorFiles) tr'
      \<and> (End Schema \<in> set tr' \<and> End GraphQLTypes \<in> set tr' \<longrightarrow> Start Phabricator \<in> set tr'))"
proof (intro conjI impI)
  assume "execute watchPhabricator cs = Some (x, tr)"
  then have "watchPhabricator_inv (x, tr)" by (rule watchPhabricator_inv_execute)
  then show "\<exists>rest. tr = Start Phabricator # rest"
    and "precedes (End Phabricator) (Start WatchPhabricatorFiles) tr"
    unfolding watchPhabricator_inv_def prod.case by blast+
next
  assume "execute watch cs' = Some (x', tr')"
  then have inv: "watch_inv (x', tr')" by (rule watch_inv_execute)
  then show "precedes (End Phabricator) (Start WatchPhabricatorFiles) tr'"
    unfolding watch_inv_def prod.case by (elim conjE)
  assume "End Schema \<in> set tr' \<and> End GraphQLTypes \<in> set tr'"
  with inv show "Start Phabricator \<in> set tr'"
    unfolding watch_inv_def prod.case by (elim exE conjE) blast
qed

text \<open>
  The runs in which every task that ends succeeds, up to the start of the watcher of the
  extension's files.
\<close>

theorem watchPhabricator_sync_before_watching_witness:
  "execute watchPhabricator [(Phabricator, True)] =
     Some (watchPhabricator_state Done Running,
           [Start Phabricator, End Phabricator, Start WatchPhabricatorFiles])
   \<and> precedes (End Phabricator) (Start WatchPhabricatorFiles)
       [Start Phabricator, End Phabricator, Start WatchPhabricatorFiles]
   \<and> execute watch [(Schema, True), (GraphQLTypes, True), (Phabricator, True)] =
     Some (watch_state Done Done Running Running Running Done Running,
           [Start Schema, Start GraphQLTypes, End Schema, End GraphQLTypes,
            Start WatchSchema, Start WatchGraphQLTypes, Start WebpackServe, Start Phabricator,
            End Phabricator, Start WatchPhabricatorFiles])
   \<and> precedes (End Phabricator) (Start WatchPhabricatorFiles)
       [Start Schema, Start GraphQLTypes, End Schema, End GraphQLTypes,
        Start WatchSchema, Start WatchGraphQLTypes, Start WebpackServe, Start Phabricator,
        End Phabricator, Start WatchPhabricatorFiles]
   \<and> Start Phabricator \<in> set
       [Start Schema, Start GraphQLTypes, End Schema, End GraphQLTypes,
        Start WatchSchema, Start WatchGraphQLTypes, Start WebpackServe, Start Phabricator,
        End Phabricator, Start WatchPhabricatorFiles]"
proof -
  have 1: "execute watchPhabricator [(Phabricator, True)] =
     Some (watchPhabricator_state Done Running,
           [Start Phabricator, End Phabricator, Start WatchPhabricatorFiles])"
    by code_simp
  have 2: "execute watch [(Schema, True), (GraphQLTypes, True), (Phabricator, True)] =
     Some (watch_state Done Done Running Running Running Done Running,
           [Start Schema, Start GraphQLTypes, End Schema, End GraphQLTypes,
            Start WatchSchema, Start WatchGraphQLTypes, Start WebpackServe, Start Phabricator,
            End Phabricator, Start WatchPhabricatorFiles])"
    by code_simp
  from watchPhabricator_sync_before_watching
    [of "[(Phabricator, True)]" "watchPhabricator_state Done Running"
        "[Start Phabricator, End Phabricator, Start WatchPhabricatorFiles]"
        "[(Schema, True), (GraphQLTypes, True), (Phabricator, True)]"
        "watch_state Done Done Running Running Running Done Running"
        "[Start Schema, Start GraphQLTypes, End Schema, End GraphQLTypes,
            Start WatchSchema, Start WatchGraphQLTypes, Start WebpackServe, Start Phabricator,
            End Phabricator, Start WatchPhabricatorFiles]"] 1 2
  show ?thesis by simp
qed

text \<open>
  C9 as stated fails in its last part: not every invocation of \<open>watch\<close> performs the
  asset sync. \<open>watch\<close> runs the code generators first and starts its second group only
  after both have succeeded. In the run below the JSON-schema task fails; when the
  GraphQL-types task has ended nothing is running, nothing more starts, and the asset copy
  was never started.
\<close>

theorem watch_without_initial_sync:
  "execute watch [(Schema, False), (GraphQLTypes, True)] =
     Some (watch_state Failed Done Pending Pending Pending Pending Pending,
           [Start Schema, Start GraphQLTypes, Fail Schema, End GraphQLTypes])
   \<and> running (watch_state Failed Done Pending Pending Pending Pending Pending) = []
   \<and> Start Phabricator \<notin> set [Start Schema, Start GraphQLTypes, Fail Schema, End GraphQLTypes]"
  by code_simp

lemma foldl_rejected: "foldl on_watcher_event (Rejected e) evs = Rejected e"
proof (induction evs)
  case Nil
  then show ?case by simp
next
  case (Cons ev evs)
  then show ?case by (cases ev) (simp_all add: reject_def)
qed

lemma watch_promise_errors:
  "foldl on_watcher_event Unsettled evs =
     (case reported_errors evs of [] \<Rightarrow> Unsettled | e # _ \<Rightarrow> Rejected e)"
proof (induction evs)
  case Nil
  then show ?case by simp
next
  case (Cons ev evs)
  then show ?case
    by (cases ev) (simp_all add: reject_def foldl_rejected)
qed

lemma await_watch_promise:
  "await_promise (watch_promise evs) =
     (case reported_errors evs of [] \<Rightarrow> None | e # _ \<Rightarrow> Some (Inl e))"
  by (simp add: watch_promise_def watch_promise_errors await_promise_def split: list.splits)

lemma watch_failed_if:
  assumes "execute watch cs = Some (x, tr)"
    and "Fail WatchSchema \<in> set tr \<or> Fail WatchGraphQLTypes \<in> set tr"
  shows "failed x"
proof -
  from assms(1) have "watch_inv (x, tr)" by (rule watch_inv_execute)
  then obtain a b c d e f g where x: "x = watch_state a b c d e f g"
    and "Fail WatchSchema \<in> set tr \<longrightarrow> c = Failed"
    and "Fail WatchGraphQLTypes \<in> set tr \<longrightarrow> d = Failed"
    unfolding watch_inv_def prod.case by (elim exE conjE) (rule that)
  with assms(2) have "c = Failed \<or> d = Failed" by blast
  then show ?thesis by (auto simp: x watch_state_def)
qed

text \<open>
  C7. The watch tasks \<open>watchSchema\<close> and \<open>watchGraphQLTypes\<close> never resolve; after the
  events \<open>evs\<close> of their watcher they have not returned when no event is an error, and
  are rejected with the first error otherwise. In every run of \<open>watch\<close> in which one of
  them fails, the composite has failed.
\<close>

theorem watch_tasks_reject_on_watcher_error:
  "watchSchema evs \<noteq> Some (Inr ()) \<and> watchGraphQLTypes evs \<noteq> Some (Inr ())
   \<and> watchSchema evs = (case reported_errors evs of [] \<Rightarrow> None | e # _ \<Rightarrow> Some (Inl e))
   \<and> watchGraphQLTypes evs =
        (case reported_errors evs of [] \<Rightarrow> None | e # _ \<Rightarrow> Some (Inl e))
   \<and> (execute watch cs = Some (x, tr)
        \<and> (Fail WatchSchema \<in> set tr \<or> Fail WatchGraphQLTypes \<in> set tr) \<longrightarrow> failed x)"
proof -
  have "watchSchema evs = (case reported_errors evs of [] \<Rightarrow> None | e # _ \<Rightarrow> Some (Inl e))"
    "watchGraphQLTypes evs = (case reported_errors evs of [] \<Rightarrow> None | e # _ \<Rightarrow> Some (Inl e))"
    by (simp_all add: watchSchema_def watchGraphQLTypes_def await_watch_promise)
  moreover from this have "watchSchema evs \<noteq> Some (Inr ())" "watchGraphQLTypes evs \<noteq> Some (Inr ())"
    by (simp_all split: list.splits)
  ultimately show ?thesis using watch_failed_if [of cs x tr] by blast
qed

text \<open>
  A watcher that reports a change and then an error, one that only reports a change, and
  the run of \<open>watch\<close> in which the schema watcher fails.
\<close>

theorem watch_tasks_reject_on_watcher_error_witness:
  "watchSchema [Change ''schema/site.schema.json'', WatcherError (Error ''EACCES'')]
     = Some (Inl (Error ''EACCES''))
   \<and> watchGraphQLTypes [Change ''schema.graphql''] = None
   \<and> execute watch [(Schema, True), (GraphQLTypes, True), (WatchSchema, False)] =
       Some (watch_state Done Done Failed Running Running Running Pending,
         [Start Schema, Start GraphQLTypes, End Schema, End GraphQLTypes,
          Start WatchSchema, Start WatchGraphQLTypes, Start WebpackServe, Start Phabricator,
          Fail WatchSchema])
   \<and> failed (watch_state Done Done Failed Running Running Running Pending)"
proof -
  have run: "execute watch [(Schema, True), (GraphQLTypes, True), (WatchSchema, False)] =
       Some (watch_state Done Done Failed Running Running Running Pending,
         [Start Schema, Start GraphQLTypes, End Schema, End GraphQLTypes,
          Start WatchSchema, Start WatchGraphQLTypes, Start WebpackServe, Start Phabricator,
          Fail WatchSchema])"
    by code_simp
  have mem: "Fail WatchSchema \<in> set [Start Schema, Start GraphQLTypes, End Schema, End GraphQLTypes,
          Start WatchSchema, Start WatchGraphQLTypes, Start WebpackServe, Start Phabricator,
          Fail WatchSchema]"
    by simp
  have a: "watchSchema [Change ''schema/site.schema.json'', WatcherError (Error ''EACCES'')]
     = Some (Inl (Error ''EACCES''))"
    using watch_tasks_reject_on_watcher_error
      [of "[Change ''schema/site.schema.json'', WatcherError (Error ''EACCES'')]" "[]" "ELeaf Schema Pending" "[]"]
    by simp
  have b: "failed (watch_state Done Done Failed Running Running Running Pending)"
    using watch_tasks_reject_on_watcher_error
      [of "[]" "[(Schema, True), (GraphQLTypes, True), (WatchSchema, False)]"
          "watch_state Done Done Failed Running Running Running Pending"
          "[Start Schema, Start GraphQLTypes, End Schema, End GraphQLTypes,
          Start WatchSchema, Start WatchGraphQLTypes, Start WebpackServe, Start Phabricator,
          Fail WatchSchema]"] run mem
    by blast
  have c: "watchGraphQLTypes [Change ''schema.graphql''] = None"
    using watch_tasks_reject_on_watcher_error
      [of "[Change ''schema.graphql'']" "[]" "ELeaf Schema Pending" "[]"]
    by simp
  from a b c run show ?thesis by blast
qed

section \<open>The bundle task and its warnings filter\<close>

text \<open>
  The matcher is correct: \<open>match_here\<close> finds a match that starts at the first character,
  \<open>rx_test\<close> one that starts anywhere.
\<close>

lemma match_here_spans: "match_here r s \<longleftrightarrow> (\<exists>m t. s = m @ t \<and> spans r m)"
proof (induction r s rule: match_here.induct)
  case (1 s)
  show ?case by simp
next
  case (2 c r)
  show ?case by simp
next
  case (3 c r x xs)
  have "(\<exists>m t. x # xs = m @ t \<and> spans (Lit c # r) m)
      \<longleftrightarrow> x = c \<and> (\<exists>m t. xs = m @ t \<and> spans r m)"
    by (auto simp: Cons_eq_append_conv)
  with 3 show ?case by simp
next
  case (4 r)
  show ?case by simp
next
  case (5 r x xs)
  have "(\<exists>m t. x # xs = m @ t \<and> spans (Dot # r) m)
      \<longleftrightarrow> \<not> is_line_terminator x \<and> (\<exists>m t. xs = m @ t \<and> spans r m)"
    by (auto simp: Cons_eq_append_conv)
  with 5 show ?case by simp
next
  case (6 r)
  then show ?case by simp
next
  case (7 r x xs)
  have "(\<exists>m t. x # xs = m @ t \<and> spans (DotStar # r) m)
      \<longleftrightarrow> (\<exists>m t. x # xs = m @ t \<and> spans r m)
          \<or> (\<not> is_line_terminator x \<and> (\<exists>m t. xs = m @ t \<and> spans (DotStar # r) m))"
    (is "?L \<longleftrightarrow> ?A \<or> ?B")
  proof
    assume ?L
    then obtain m t u v where m: "x # xs = m @ t" "m = u @ v"
      "\<not> list_ex is_line_terminator u" "spans r v"
      by auto
    show "?A \<or> ?B"
    proof (cases u)
      case Nil
      with m have "x # xs = v @ t \<and> spans r v" by simp
      then show ?thesis by blast
    next
      case (Cons y u')
      with m have "x = y" "xs = (u' @ v) @ t" "\<not> is_line_terminator y"
        "\<not> list_ex is_line_terminator u'"
        by simp_all
      moreover from this m have "spans (DotStar # r) (u' @ v)" by auto
      ultimately show ?thesis by blast
    qed
  next
    assume "?A \<or> ?B"
    then show ?L
    proof
      assume ?A
      then obtain m t where "x # xs = m @ t" "spans r m" by blast
      moreover from this have "m = [] @ m \<and> \<not> list_ex is_line_terminator [] \<and> spans r m"
        by simp
      then have "spans (DotStar # r) m"
        unfolding spans.simps by blast
      ultimately show ?L by blast
    next
      assume ?B
      then obtain m t u v where m: "\<not> is_line_terminator x" "xs = m @ t" "m = u @ v"
        "\<not> list_ex is_line_terminator u" "spans r v"
        by auto
      then have "x # xs = (x # m) @ t \<and> x # m = (x # u) @ v
          \<and> \<not> list_ex is_line_terminator (x # u) \<and> spans r v"
        by simp
      then have "x # xs = (x # m) @ t \<and> spans (DotStar # r) (x # m)"
        unfolding spans.simps by blast
      then show ?L by blast
    qed
  qed
  with 7 show ?case by simp
qed

lemma rx_test_spans: "rx_test r s \<longleftrightarrow> (\<exists>p m t. s = p @ m @ t \<and> spans r m)"
proof (induction s)
  case Nil
  show ?case by (simp add: match_here_spans)
next
  case (Cons x xs)
  have "(\<exists>p m t. x # xs = p @ m @ t \<and> spans r m)
      \<longleftrightarrow> (\<exists>m t. x # xs = m @ t \<and> spans r m) \<or> (\<exists>p m t. xs = p @ m @ t \<and> spans r m)"
    (is "?L \<longleftrightarrow> ?A \<or> ?B")
  proof
    assume ?L
    then obtain p m t where e: "x # xs = p @ m @ t" "spans r m" by blast
    show "?A \<or> ?B"
    proof (cases p)
      case Nil
      with e show ?thesis by auto
    next
      case (Cons y p')
      with e have "xs = p' @ m @ t" by simp
      with e(2) show ?thesis by blast
    qed
  next
    assume "?A \<or> ?B"
    then show ?L
    proof
      assume ?A
      then obtain m t where "x # xs = [] @ m @ t" "spans r m" by auto
      then show ?L by blast
    next
      assume ?B
      then obtain p m t where "x # xs = (x # p) @ m @ t" "spans r m" by auto
      then show ?L by blast
    qed
  qed
  with Cons show ?case by (simp add: match_here_spans)
qed

lemma spans_lits: "spans (lits s @ r) m \<longleftrightarrow> (\<exists>t. m = units s @ t \<and> spans r t)"
  by (induction s arbitrary: m) (auto simp: lits_def units_def)

lemma spans_lits_end: "spans (lits s) m \<longleftrightarrow> m = units s"
  using spans_lits [of s "[]" m] by simp

lemma spans_DotStar_lits:
  "spans (DotStar # lits D) t \<longleftrightarrow> (\<exists>d. t = d @ units D \<and> \<not> list_ex is_line_terminator d)"
  by (auto simp: spans_lits_end)

lemma spans_shape:
  "spans (lits A @ [DotStar] @ lits B @ [Dot] @ lits C @ [DotStar, Lit n, DotStar] @ lits D) m
   \<longleftrightarrow> (\<exists>b x c d. m = units A @ b @ units B @ [x] @ units C @ c @ [n] @ d @ units D
          \<and> \<not> list_ex is_line_terminator b \<and> \<not> is_line_terminator x
          \<and> \<not> list_ex is_line_terminator c \<and> \<not> list_ex is_line_terminator d)"
proof -
  let ?r7 = "DotStar # lits D"
  let ?r5 = "DotStar # Lit n # ?r7"
  let ?r3 = "Dot # (lits C @ ?r5)"
  let ?r1 = "DotStar # (lits B @ ?r3)"
  have s5: "spans ?r5 t \<longleftrightarrow> (\<exists>c d. t = c @ [n] @ d @ units D
      \<and> \<not> list_ex is_line_terminator c \<and> \<not> list_ex is_line_terminator d)" for t
  proof -
    have "spans ?r5 t \<longleftrightarrow> (\<exists>c t'. t = c @ t' \<and> \<not> list_ex is_line_terminator c
        \<and> (\<exists>t''. t' = n # t'' \<and> spans ?r7 t''))"
      by simp
    also have "\<dots> \<longleftrightarrow> (\<exists>c d. t = c @ [n] @ d @ units D
      \<and> \<not> list_ex is_line_terminator c \<and> \<not> list_ex is_line_terminator d)"
      unfolding spans_DotStar_lits by (simp only: append_Cons append_Nil) blast
    finally show ?thesis .
  qed
  have s3: "spans ?r3 t \<longleftrightarrow> (\<exists>x c d. t = [x] @ units C @ c @ [n] @ d @ units D
      \<and> \<not> is_line_terminator x
      \<and> \<not> list_ex is_line_terminator c \<and> \<not> list_ex is_line_terminator d)" for t
  proof -
    have "spans ?r3 t \<longleftrightarrow> (\<exists>x t'. t = x # t' \<and> \<not> is_line_terminator x
        \<and> (\<exists>t''. t' = units C @ t'' \<and> spans ?r5 t''))"
      by (simp only: spans.simps spans_lits)
    also have "\<dots> \<longleftrightarrow> (\<exists>x c d. t = [x] @ units C @ c @ [n] @ d @ units D
      \<and> \<not> is_line_terminator x
      \<and> \<not> list_ex is_line_terminator c \<and> \<not> list_ex is_line_terminator d)"
      unfolding s5 by (simp only: append_Cons append_Nil) blast
    finally show ?thesis .
  qed
  have s1: "spans ?r1 t \<longleftrightarrow> (\<exists>b x c d. t = b @ units B @ [x] @ units C @ c @ [n] @ d @ units D
      \<and> \<not> list_ex is_line_terminator b \<and> \<not> is_line_terminator x
      \<and> \<not> list_ex is_line_terminator c \<and> \<not> list_ex is_line_terminator d)" for t
  proof -
    have "spans ?r1 t \<longleftrightarrow> (\<exists>b t'. t = b @ t' \<and> \<not> list_ex is_line_terminator b
        \<and> (\<exists>t''. t' = units B @ t'' \<and> spans ?r3 t''))"
      by (simp only: spans.simps spans_lits)
    also have "\<dots> \<longleftrightarrow> (\<exists>b x c d. t = b @ units B @ [x] @ units C @ c @ [n] @ d @ units D
      \<and> \<not> list_ex is_line_terminator b \<and> \<not> is_line_terminator x
      \<and> \<not> list_ex is_line_terminator c \<and> \<not> list_ex is_line_terminator d)"
      unfolding s3 by (simp only: append_Cons append_Nil) blast
    finally show ?thesis .
  qed
  have "lits A @ [DotStar] @ lits B @ [Dot] @ lits C @ [DotStar, Lit n, DotStar] @ lits D
      = lits A @ ?r1"
    by simp
  then have "spans (lits A @ [DotStar] @ lits B @ [Dot] @ lits C @ [DotStar, Lit n, DotStar] @ lits D) m
      \<longleftrightarrow> (\<exists>t. m = units A @ t \<and> spans ?r1 t)"
    by (simp only: spans_lits)
  also have "\<dots> \<longleftrightarrow> (\<exists>b x c d. m = units A @ b @ units B @ [x] @ units C @ c @ [n] @ d @ units D
          \<and> \<not> list_ex is_line_terminator b \<and> \<not> is_line_terminator x
          \<and> \<not> list_ex is_line_terminator c \<and> \<not> list_ex is_line_terminator d)"
    unfolding s1 by (simp only: append_Cons append_Nil) blast
  finally show ?thesis .
qed

lemma no_line_terminator_iff:
  "\<not> is_line_terminator x \<longleftrightarrow> x \<notin> {0x0A, 0x0D, 0x2028, 0x2029}"
  "\<not> list_ex is_line_terminator b \<longleftrightarrow> set b \<inter> {0x0A, 0x0D, 0x2028, 0x2029} = {}"
  by (auto simp: is_line_terminator_def list_ex_iff)

lemma rx_test_MONACO_WORKER_WARNING:
  "rx_test MONACO_WORKER_WARNING w \<longleftrightarrow>
     (\<exists>p b x c d t. w = p @ units ''node_modules/monaco-editor/'' @ b
          @ units ''/editorSimpleWorker'' @ [x] @ units ''js'' @ c @ [0x0A] @ d
          @ units ''dependency is an expression'' @ t
        \<and> set b \<inter> {0x0A, 0x0D, 0x2028, 0x2029} = {}
        \<and> x \<notin> {0x0A, 0x0D, 0x2028, 0x2029}
        \<and> set c \<inter> {0x0A, 0x0D, 0x2028, 0x2029} = {}
        \<and> set d \<inter> {0x0A, 0x0D, 0x2028, 0x2029} = {})"
proof -
  let ?A = "units ''node_modules/monaco-editor/''" and ?B = "units ''/editorSimpleWorker''"
  let ?C = "units ''js''" and ?D = "units ''dependency is an expression''"
  let ?T = "{0x0A, 0x0D, 0x2028, 0x2029} :: code_unit set"
  have "rx_test MONACO_WORKER_WARNING w \<longleftrightarrow>
      (\<exists>p m t. w = p @ m @ t \<and> (\<exists>b x c d. m = ?A @ b @ ?B @ [x] @ ?C @ c @ [0x0A] @ d @ ?D
          \<and> \<not> list_ex is_line_terminator b \<and> \<not> is_line_terminator x
          \<and> \<not> list_ex is_line_terminator c \<and> \<not> list_ex is_line_terminator d))"
    unfolding rx_test_spans MONACO_WORKER_WARNING_def spans_shape ..
  also have "\<dots> \<longleftrightarrow> (\<exists>p b x c d t. w = p @ (?A @ b @ ?B @ [x] @ ?C @ c @ [0x0A] @ d @ ?D) @ t
          \<and> \<not> list_ex is_line_terminator b \<and> \<not> is_line_terminator x
          \<and> \<not> list_ex is_line_terminator c \<and> \<not> list_ex is_line_terminator d)"
    by blast
  also have "\<dots> \<longleftrightarrow> (\<exists>p b x c d t. w = p @ ?A @ b @ ?B @ [x] @ ?C @ c @ [0x0A] @ d @ ?D @ t
          \<and> set b \<inter> ?T = {} \<and> x \<notin> ?T \<and> set c \<inter> ?T = {} \<and> set d \<inter> ?T = {})"
    by (simp only: append_assoc no_line_terminator_iff)
  finally show ?thesis .
qed

lemma webpack_log: "fst (webpack (Inr st)) = [toString WEBPACK_STATS_OPTIONS st]"
  by (simp add: webpack_def logWebpackStats_def Let_def)

lemma webpack_outcome:
  "snd (webpack (Inr st)) = (if errors st = [] then Inr () else Inl (Error ''Failed to compile''))"
  by (simp add: webpack_def hasErrors_def Let_def)

lemma toString_WEBPACK_STATS_OPTIONS:
  "toString WEBPACK_STATS_OPTIONS st =
     \<lparr> shown_time = Some (compile_time st), shown_errors = errors st,
       shown_warnings = filter (\<lambda>w. \<not> rx_test MONACO_WORKER_WARNING w) (warnings st) \<rparr>"
  by (simp add: toString_def WEBPACK_STATS_OPTIONS_def)

text \<open>
  C3. When the bundler run completes and hands over its statistics \<open>st\<close>, the task logs
  exactly one entry, the rendering of \<open>st\<close> under \<open>WEBPACK_STATS_OPTIONS\<close> (all the
  errors, and the warnings the filter does not suppress), whether it then succeeds or
  fails; and it fails exactly when the statistics hold at least one error-level entry,
  with the error \<^verbatim>\<open>Failed to compile\<close>. (A run that itself reports an error hands over
  no statistics: \<open>webpack (Inl err)\<close> is rejected with \<open>err\<close>.)
\<close>

theorem webpack_logs_then_fails_iff_errors:
  "fst (webpack (Inr st)) = [toString WEBPACK_STATS_OPTIONS st]
   \<and> shown_errors (toString WEBPACK_STATS_OPTIONS st) = errors st
   \<and> shown_warnings (toString WEBPACK_STATS_OPTIONS st) =
       filter (\<lambda>w. \<not> warningsFilter WEBPACK_STATS_OPTIONS w) (warnings st)
   \<and> (isl (snd (webpack (Inr st))) \<longleftrightarrow> hasErrors st)
   \<and> (hasErrors st \<longleftrightarrow> errors st \<noteq> [])
   \<and> snd (webpack (Inr st)) =
       (if errors st = [] then Inr () else Inl (Error ''Failed to compile''))"
proof -
  have "warningsFilter WEBPACK_STATS_OPTIONS = (\<lambda>w. rx_test MONACO_WORKER_WARNING w)"
    by (simp add: WEBPACK_STATS_OPTIONS_def)
  then have "shown_warnings (toString WEBPACK_STATS_OPTIONS st) =
       filter (\<lambda>w. \<not> warningsFilter WEBPACK_STATS_OPTIONS w) (warnings st)"
    by (simp add: toString_WEBPACK_STATS_OPTIONS)
  moreover have "shown_errors (toString WEBPACK_STATS_OPTIONS st) = errors st"
    by (simp add: toString_WEBPACK_STATS_OPTIONS)
  moreover have "isl (snd (webpack (Inr st))) \<longleftrightarrow> hasErrors st"
    by (simp add: webpack_outcome hasErrors_def)
  ultimately show ?thesis
    using webpack_log [of st] webpack_outcome [of st] by (simp add: hasErrors_def)
qed

text \<open>
  C6. The warnings in the logged rendering are the warnings of the run that do not match
  the worker-script pattern, in their order: a warning is left out if and only if it
  matches. A text matches exactly when it contains \<^verbatim>\<open>node_modules/monaco-editor/\<close>,
  later on the same line \<^verbatim>\<open>/editorSimpleWorker\<close>, one character that is not a line
  terminator and \<^verbatim>\<open>js\<close>, then a line feed that ends this line, and on the line that
  follows \<^verbatim>\<open>dependency is an expression\<close>; a line is ended by a line feed, a
  carriage return, U+2028 or U+2029. The outcome of the task does not depend on the
  warnings: a run without errors succeeds whatever its warnings are.
\<close>

theorem monaco_worker_warning_filtered:
  "map shown_warnings (fst (webpack (Inr st))) =
     [filter (\<lambda>w. \<not> rx_test MONACO_WORKER_WARNING w) (warnings st)]
   \<and> (rx_test MONACO_WORKER_WARNING w \<longleftrightarrow>
       (\<exists>p b x c d t. w = p @ units ''node_modules/monaco-editor/'' @ b
          @ units ''/editorSimpleWorker'' @ [x] @ units ''js'' @ c @ [0x0A] @ d
          @ units ''dependency is an expression'' @ t
        \<and> set b \<inter> {0x0A, 0x0D, 0x2028, 0x2029} = {}
        \<and> x \<notin> {0x0A, 0x0D, 0x2028, 0x2029}
        \<and> set c \<inter> {0x0A, 0x0D, 0x2028, 0x2029} = {}
        \<and> set d \<inter> {0x0A, 0x0D, 0x2028, 0x2029} = {}))
   \<and> snd (webpack (Inr (st\<lparr>warnings := ws\<rparr>))) = snd (webpack (Inr st))
   \<and> snd (webpack (Inr \<lparr>errors = [], warnings = ws, compile_time = n\<rparr>)) = Inr ()"
proof -
  have "map shown_warnings (fst (webpack (Inr st))) =
     [filter (\<lambda>w. \<not> rx_test MONACO_WORKER_WARNING w) (warnings st)]"
    by (simp add: webpack_log toString_WEBPACK_STATS_OPTIONS)
  moreover have "snd (webpack (Inr (st\<lparr>warnings := ws\<rparr>))) = snd (webpack (Inr st))"
    "snd (webpack (Inr \<lparr>errors = [], warnings = ws, compile_time = n\<rparr>)) = Inr ()"
    by (simp_all add: webpack_outcome)
  ultimately show ?thesis
    using rx_test_MONACO_WORKER_WARNING [of w] by blast
qed

text \<open>
  Of the four warnings only the first matches the pattern.
\<close>

lemma example_warnings_filtered:
  "filter (\<lambda>w. \<not> rx_test MONACO_WORKER_WARNING w)
     [example_worker_warning, example_other_warning, example_split_warning, example_late_warning]
   = [example_other_warning, example_split_warning, example_late_warning]"
  by code_simp

text \<open>
  A run with the four warnings and no error: the log holds the last three, in their
  order, and the task succeeds.
\<close>

theorem monaco_worker_warning_filtered_witness:
  "map shown_warnings (fst (webpack (Inr
      \<lparr>errors = [],
       warnings = [example_worker_warning, example_other_warning, example_split_warning,
                   example_late_warning],
       compile_time = 1200\<rparr>)))
   = [[example_other_warning, example_split_warning, example_late_warning]]
   \<and> snd (webpack (Inr
      \<lparr>errors = [],
       warnings = [example_worker_warning, example_other_warning, example_split_warning,
                   example_late_warning],
       compile_time = 1200\<rparr>)) = Inr ()"
  using monaco_worker_warning_filtered
    [of "\<lparr>errors = [],
       warnings = [example_worker_warning, example_other_warning, example_split_warning,
                   example_late_warning],
       compile_time = 1200\<rparr>" "[]"
       "[example_worker_warning, example_other_warning, example_split_warning,
                   example_late_warning]" 1200]
    example_warnings_filtered
  by simp

section \<open>The code generators\<close>

lemma graphQLTypes_unreadable:
  assumes "files s (GRAPHQL_SCHEMA_PATH dirname) = None"
  shows "graphQLTypes tools dirname s =
     (Inl (Error (''ENOENT: '' @ GRAPHQL_SCHEMA_PATH dirname)), s)"
  using assms by (simp add: graphQLTypes_def await_def readFile_def)

lemma graphQLTypes_unparsable:
  assumes "files s (GRAPHQL_SCHEMA_PATH dirname) = Some schemaStr"
    and "buildSchema tools schemaStr = Inl e"
  shows "graphQLTypes tools dirname s = (Inl e, s)"
  using assms by (simp add: graphQLTypes_def await_def readFile_def settled_def)

lemma graphQLTypes_no_config:
  assumes "resolveConfig tools dirname (dirname @ ''/prettier.config.js'') = Inl e"
  shows "graphQLTypes tools dirname s =
     (case files s (GRAPHQL_SCHEMA_PATH dirname) of
        None \<Rightarrow> (Inl (Error (''ENOENT: '' @ GRAPHQL_SCHEMA_PATH dirname)), s)
      | Some schemaStr \<Rightarrow>
          (case buildSchema tools schemaStr of Inl e' \<Rightarrow> (Inl e', s) | Inr parsed \<Rightarrow> (Inl e, s)))"
  using assms
  by (simp add: graphQLTypes_def await_def readFile_def settled_def Let_def
      split: option.splits sum.splits)

text \<open>
  C8. \<open>graphQLTypes\<close> fails, and writes nothing, when the schema file cannot be read, when
  \<^verbatim>\<open>buildSchema\<close> rejects its text, and when resolving the formatting configuration
  is rejected (with that error when the schema was read and parsed).
\<close>

theorem graphQLTypes_fails_on_bad_input:
  "(files s (GRAPHQL_SCHEMA_PATH dirname) = None \<longrightarrow>
      graphQLTypes tools dirname s =
        (Inl (Error (''ENOENT: '' @ GRAPHQL_SCHEMA_PATH dirname)), s))
   \<and> (files s (GRAPHQL_SCHEMA_PATH dirname) = Some schemaStr
        \<and> buildSchema tools schemaStr = Inl e \<longrightarrow>
      graphQLTypes tools dirname s = (Inl e, s))
   \<and> (resolveConfig tools dirname (dirname @ ''/prettier.config.js'') = Inl e' \<longrightarrow>
      isl (fst (graphQLTypes tools dirname s)) \<and> snd (graphQLTypes tools dirname s) = s
      \<and> (files s (GRAPHQL_SCHEMA_PATH dirname) = Some schemaStr
           \<and> buildSchema tools schemaStr = Inr parsed \<longrightarrow>
          graphQLTypes tools dirname s = (Inl e', s)))"
proof (intro conjI impI)
  assume "files s (GRAPHQL_SCHEMA_PATH dirname) = None"
  then show "graphQLTypes tools dirname s =
        (Inl (Error (''ENOENT: '' @ GRAPHQL_SCHEMA_PATH dirname)), s)"
    by (rule graphQLTypes_unreadable)
next
  assume "files s (GRAPHQL_SCHEMA_PATH dirname) = Some schemaStr
        \<and> buildSchema tools schemaStr = Inl e"
  then show "graphQLTypes tools dirname s = (Inl e, s)"
    by (simp add: graphQLTypes_unparsable)
next
  assume c: "resolveConfig tools dirname (dirname @ ''/prettier.config.js'') = Inl e'"
  show "isl (fst (graphQLTypes tools dirname s))"
    by (simp add: graphQLTypes_no_config [OF c] split: option.splits sum.splits)
  show "snd (graphQLTypes tools dirname s) = s"
    by (simp add: graphQLTypes_no_config [OF c] split: option.splits sum.splits)
  assume "files s (GRAPHQL_SCHEMA_PATH dirname) = Some schemaStr
           \<and> buildSchema tools schemaStr = Inr parsed"
  then show "graphQLTypes tools dirname s = (Inl e', s)"
    by (simp add: graphQLTypes_no_config [OF c])
qed

text \<open>
  A repository without the schema file, one whose schema does not parse, and one without
  \<^verbatim>\<open>prettier.config.js\<close>.
\<close>

theorem graphQLTypes_fails_on_bad_input_witness:
  "graphQLTypes example_gql_tools ''/repo'' (example_fs []) =
     (Inl (Error ''ENOENT: /repo/cmd/frontend/graphqlbackend/schema.graphql''), example_fs [])
   \<and> graphQLTypes example_gql_tools ''/repo''
       (example_fs [(''/repo/cmd/frontend/graphqlbackend/schema.graphql'', ''type Query {'')]) =
     (Inl (Error ''Syntax Error''),
      example_fs [(''/repo/cmd/frontend/graphqlbackend/schema.graphql'', ''type Query {'')])
   \<and> graphQLTypes example_gql_tools ''/repo''
       (example_fs [(''/repo/cmd/frontend/graphqlbackend/schema.graphql'', ''type Query { x: ID }'')]) =
     (Inl (Error ''prettier.config.js not found''),
      example_fs [(''/repo/cmd/frontend/graphqlbackend/schema.graphql'', ''type Query { x: ID }'')])"
proof -
  let ?p = "''/repo/cmd/frontend/graphqlbackend/schema.graphql''"
  have p: "GRAPHQL_SCHEMA_PATH ''/repo'' = ?p"
    by (simp add: GRAPHQL_SCHEMA_PATH_def)
  have 1: "files (example_fs []) (GRAPHQL_SCHEMA_PATH ''/repo'') = None"
    by (simp add: example_fs_def)
  have 2: "files (example_fs [(?p, ''type Query {'')]) (GRAPHQL_SCHEMA_PATH ''/repo'')
        = Some ''type Query {''
      \<and> buildSchema example_gql_tools ''type Query {'' = Inl (Error ''Syntax Error'')"
    by (simp add: example_fs_def p example_gql_tools_def)
  have 3: "resolveConfig example_gql_tools ''/repo'' (''/repo'' @ ''/prettier.config.js'')
        = Inl (Error ''prettier.config.js not found'')"
    by (simp add: example_gql_tools_def)
  have 4: "files (example_fs [(?p, ''type Query { x: ID }'')]) (GRAPHQL_SCHEMA_PATH ''/repo'')
        = Some ''type Query { x: ID }''
      \<and> buildSchema example_gql_tools ''type Query { x: ID }'' = Inr ''type Query { x: ID }''"
    by (simp add: example_fs_def p example_gql_tools_def)
  from graphQLTypes_fails_on_bad_input
    [of "example_fs []" "''/repo''" example_gql_tools "''''" "Error ''''" "Error ''''" "''''"] 1
  have a: "graphQLTypes example_gql_tools ''/repo'' (example_fs []) =
     (Inl (Error ''ENOENT: /repo/cmd/frontend/graphqlbackend/schema.graphql''), example_fs [])"
    by (simp add: p)
  from graphQLTypes_fails_on_bad_input
    [of "example_fs [(?p, ''type Query {'')]" "''/repo''" example_gql_tools "''type Query {''"
        "Error ''Syntax Error''" "Error ''''" "''''"] 2
  have b: "graphQLTypes example_gql_tools ''/repo'' (example_fs [(?p, ''type Query {'')]) =
     (Inl (Error ''Syntax Error''), example_fs [(?p, ''type Query {'')])"
    by blast
  from graphQLTypes_fails_on_bad_input
    [of "example_fs [(?p, ''type Query { x: ID }'')]" "''/repo''" example_gql_tools
        "''type Query { x: ID }''" "Error ''''" "Error ''prettier.config.js not found''"
        "''type Query { x: ID }''"] 3 4
  have c: "graphQLTypes example_gql_tools ''/repo'' (example_fs [(?p, ''type Query { x: ID }'')]) =
     (Inl (Error ''prettier.config.js not found''), example_fs [(?p, ''type Query { x: ID }'')])"
    by blast
  from a b c show ?thesis by blast
qed

lemma promise_all_Cons_ok:
  assumes "promise_all (t # ts) s = (Inr rs, s')"
  obtains r s1 rs' where "t s = (Inr r, s1)" "promise_all ts s1 = (Inr rs', s')" "rs = r # rs'"
  using assms by (auto split: prod.splits sum.splits)

lemma promise_all_Cons_state:
  "snd (promise_all (t # ts) s) = snd (promise_all ts (snd (t s)))"
  by (simp split: prod.splits)

lemma writeFile_frame:
  "dirs (snd (writeFile p c s)) = dirs s" "denied (snd (writeFile p c s)) = denied s"
  "q \<noteq> p \<Longrightarrow> files (snd (writeFile p c s)) q = files s q"
  by (simp_all add: writeFile_def)

lemma writeFile_ok:
  assumes "writeFile p c s = (Inr r, s')"
  shows "s' = s\<lparr>files := (files s)(p \<mapsto> c)\<rparr>"
  using assms by (simp add: writeFile_def split: if_splits)

lemma schema_file_frame:
  "dirs (snd (schema_file tools dirname file s)) = dirs s"
  "denied (snd (schema_file tools dirname file s)) = denied s"
  "q \<noteq> dirname @ ''/src/schema/'' @ file @ ''.schema.d.ts'' \<Longrightarrow>
   q \<noteq> dirname @ ''/src/schema/'' @ file @ ''.schema.json'' \<Longrightarrow>
   files (snd (schema_file tools dirname file s)) q = files s q"
  by (simp_all add: schema_file_def await_def readFile_def settled_def Let_def writeFile_def
      split: option.splits sum.splits prod.splits)

lemma schema_file_ok:
  assumes "schema_file tools dirname file s = (Inr rs, s')"
  shows "\<exists>src parsed types.
     files s (dirname @ ''/schema/'' @ file @ ''.schema.json'') = Some src
     \<and> JSON_parse tools (rewrite_refs src) = Inr parsed
     \<and> compileJSONSchema tools parsed ''settings.schema'' (dirname @ ''/schema'') = Inr types
     \<and> files s' (dirname @ ''/src/schema/'' @ file @ ''.schema.d.ts'') = Some types
     \<and> files s' (dirname @ ''/src/schema/'' @ file @ ''.schema.json'') = Some (rewrite_refs src)"
  using assms
  by (auto simp: schema_file_def await_def readFile_def settled_def Let_def writeFile_def
      rewrite_refs_def split: option.splits sum.splits prod.splits if_splits)

lemma schema_in_ne_out:
  "dirname @ ''/schema/'' @ g @ ''.schema.json'' \<noteq> dirname @ ''/src/schema/'' @ f @ ext"
  by simp

lemma schema_dist_ne_out:
  "dirname @ ''/dist/schema/'' @ name \<noteq> dirname @ ''/src/schema/'' @ f @ ext"
  by simp

lemma schema_out1_ne_out2:
  "dirname @ ''/src/schema/'' @ f @ ''.schema.d.ts'' \<noteq> dirname @ ''/src/schema/'' @ g @ ''.schema.json''"
proof
  assume "dirname @ ''/src/schema/'' @ f @ ''.schema.d.ts'' = dirname @ ''/src/schema/'' @ g @ ''.schema.json''"
  then have "last (f @ ''.schema.d.ts'') = last (g @ ''.schema.json'')" by simp
  then show False by simp
qed

lemma schema_files_frame:
  assumes "\<And>f. f \<in> set fs \<Longrightarrow> q \<noteq> dirname @ ''/src/schema/'' @ f @ ''.schema.d.ts''
      \<and> q \<noteq> dirname @ ''/src/schema/'' @ f @ ''.schema.json''"
  shows "files (snd (promise_all (map (schema_file tools dirname) fs) s)) q = files s q"
  using assms
proof (induction fs arbitrary: s)
  case Nil
  show ?case by simp
next
  case (Cons f fs)
  have "files (snd (promise_all (map (schema_file tools dirname) (f # fs)) s)) q
      = files (snd (promise_all (map (schema_file tools dirname) fs)
          (snd (schema_file tools dirname f s)))) q"
    by (simp only: list.map promise_all_Cons_state)
  also have "\<dots> = files (snd (schema_file tools dirname f s)) q"
    using Cons.prems by (intro Cons.IH) simp
  also have "\<dots> = files s q"
    using Cons.prems [of f] by (intro schema_file_frame(3)) simp_all
  finally show ?case .
qed

lemma schema_files_dirs:
  "dirs (snd (promise_all (map (schema_file tools dirname) fs) s)) = dirs s"
proof (induction fs arbitrary: s)
  case Nil
  show ?case by simp
next
  case (Cons f fs)
  have "dirs (snd (promise_all (map (schema_file tools dirname) (f # fs)) s))
      = dirs (snd (promise_all (map (schema_file tools dirname) fs)
          (snd (schema_file tools dirname f s))))"
    by (simp only: list.map promise_all_Cons_state)
  then show ?case by (simp add: Cons.IH schema_file_frame)
qed

lemma schema_files_ok:
  assumes "distinct fs" "promise_all (map (schema_file tools dirname) fs) s = (Inr rs, s')"
  shows "\<forall>file\<in>set fs. schema_file_written tools dirname s s' file"
  using assms
proof (induction fs arbitrary: s rs)
  case Nil
  show ?case by simp
next
  case (Cons f fs)
  from Cons.prems(2)
  have "promise_all (schema_file tools dirname f # map (schema_file tools dirname) fs) s
      = (Inr rs, s')"
    by (simp only: list.map)
  then obtain r s1 rs' where
    one: "schema_file tools dirname f s = (Inr r, s1)"
    and rest: "promise_all (map (schema_file tools dirname) fs) s1 = (Inr rs', s')"
    by (rule promise_all_Cons_ok)
  from Cons.prems(1) have nf: "f \<notin> set fs" and d: "distinct fs" by simp_all
  from schema_file_ok [OF one] obtain src parsed types where f:
    "files s (dirname @ ''/schema/'' @ f @ ''.schema.json'') = Some src"
    "JSON_parse tools (rewrite_refs src) = Inr parsed"
    "compileJSONSchema tools parsed ''settings.schema'' (dirname @ ''/schema'') = Inr types"
    "files s1 (dirname @ ''/src/schema/'' @ f @ ''.schema.d.ts'') = Some types"
    "files s1 (dirname @ ''/src/schema/'' @ f @ ''.schema.json'') = Some (rewrite_refs src)"
    by blast
  have s': "s' = snd (promise_all (map (schema_file tools dirname) fs) s1)"
    using rest by simp
  have keep1: "files s' (dirname @ ''/src/schema/'' @ f @ ''.schema.d.ts'')
      = files s1 (dirname @ ''/src/schema/'' @ f @ ''.schema.d.ts'')"
    unfolding s'
  proof (rule schema_files_frame)
    fix g assume "g \<in> set fs"
    with nf have "f \<noteq> g" by blast
    then show "dirname @ ''/src/schema/'' @ f @ ''.schema.d.ts''
          \<noteq> dirname @ ''/src/schema/'' @ g @ ''.schema.d.ts''
        \<and> dirname @ ''/src/schema/'' @ f @ ''.schema.d.ts''
          \<noteq> dirname @ ''/src/schema/'' @ g @ ''.schema.json''"
      using schema_out1_ne_out2 [of dirname f g] by simp
  qed
  have keep2: "files s' (dirname @ ''/src/schema/'' @ f @ ''.schema.json'')
      = files s1 (dirname @ ''/src/schema/'' @ f @ ''.schema.json'')"
    unfolding s'
  proof (rule schema_files_frame)
    fix g assume "g \<in> set fs"
    with nf have "f \<noteq> g" by blast
    then show "dirname @ ''/src/schema/'' @ f @ ''.schema.json''
          \<noteq> dirname @ ''/src/schema/'' @ g @ ''.schema.d.ts''
        \<and> dirname @ ''/src/schema/'' @ f @ ''.schema.json''
          \<noteq> dirname @ ''/src/schema/'' @ g @ ''.schema.json''"
      using schema_out1_ne_out2 [of dirname g f] by simp
  qed
  have head: "schema_file_written tools dirname s s' f"
    unfolding schema_file_written_def using f keep1 keep2 by auto
  have tail: "schema_file_written tools dirname s s' g" if g: "g \<in> set fs" for g
  proof -
    from Cons.IH [OF d rest] g have "schema_file_written tools dirname s1 s' g" by blast
    moreover have "files s1 (dirname @ ''/schema/'' @ g @ ''.schema.json'')
        = files s (dirname @ ''/schema/'' @ g @ ''.schema.json'')"
      using schema_file_frame(3) [of "dirname @ ''/schema/'' @ g @ ''.schema.json''" dirname f tools s]
        one schema_in_ne_out by simp
    ultimately show ?thesis by (simp add: schema_file_written_def)
  qed
  from head tail show ?case by simp
qed

text \<open>
  A \<^verbatim>\<open>mkdirp\<close> that succeeds leaves the directory and all the directories above it.
\<close>

lemma mkdirp_ok:
  assumes "mkdirp p s = (Inr r, s')"
  shows "s' = s\<lparr>dirs := dirs s \<union> set (parent_dirs p) \<union> {p}\<rparr>"
proof -
  define missing where "missing = filter (\<lambda>d. d \<notin> dirs s) (parent_dirs p @ [p])"
  have eq: "mkdirp p s =
     (case dropWhile (\<lambda>d. d \<notin> denied s) missing of
        [] \<Rightarrow> (Inr (), s\<lparr>dirs := dirs s \<union> set (takeWhile (\<lambda>d. d \<notin> denied s) missing)\<rparr>)
      | d # _ \<Rightarrow> (Inl (Error (''EACCES: '' @ d)),
          s\<lparr>dirs := dirs s \<union> set (takeWhile (\<lambda>d. d \<notin> denied s) missing)\<rparr>))"
    unfolding mkdirp_def Let_def missing_def ..
  from assms have d: "dropWhile (\<lambda>d. d \<notin> denied s) missing = []"
    unfolding eq by (simp split: list.splits)
  with assms have s': "s' = s\<lparr>dirs := dirs s \<union> set (takeWhile (\<lambda>d. d \<notin> denied s) missing)\<rparr>"
    unfolding eq by simp
  from d have t: "takeWhile (\<lambda>d. d \<notin> denied s) missing = missing"
    by (metis takeWhile_dropWhile_id append_Nil2)
  have "dirs s \<union> set missing = dirs s \<union> set (parent_dirs p) \<union> {p}"
    unfolding missing_def by auto
  then show ?thesis unfolding s' t by (rule arg_cong)
qed

lemma mkdirp_frame:
  "files (snd (mkdirp p s)) = files s" "denied (snd (mkdirp p s)) = denied s"
  by (simp_all add: mkdirp_def Let_def split: list.splits)

lemma mkdirp_both:
  assumes "promise_all [mkdirp a, mkdirp b] s = (Inr rs, s0)"
  shows "s0 = s\<lparr>dirs := dirs s \<union> set (parent_dirs a) \<union> {a} \<union> set (parent_dirs b) \<union> {b}\<rparr>"
proof -
  from assms obtain r1 s1 r2 where
    a: "mkdirp a s = (Inr r1, s1)" and b: "mkdirp b s1 = (Inr r2, s0)"
    by (auto split: prod.splits sum.splits)
  show ?thesis
    using mkdirp_ok [OF a] mkdirp_ok [OF b] by simp
qed

text \<open>
  C4 (amended). When the schema task succeeds, for every schema file of the fixed list
  (\<^verbatim>\<open>json-schema\<close>, \<^verbatim>\<open>settings\<close>, \<^verbatim>\<open>site\<close>, \<^verbatim>\<open>extension\<close>) the generated
  type declarations and the reference-rewritten schema are in the source tree
  \<^verbatim>\<open>src/schema\<close>. No file in \<^verbatim>\<open>dist/schema\<close> is written; the task only makes
  the directories \<^verbatim>\<open>src/schema\<close> and \<^verbatim>\<open>dist/schema\<close>, with the directories above
  them.
\<close>

theorem schema_writes_source_tree_only:
  assumes "schema tools dirname s = (Inr (), s')"
  shows "(\<forall>file\<in>set SCHEMA_FILES. \<exists>src parsed types.
        files s (dirname @ ''/schema/'' @ file @ ''.schema.json'') = Some src
        \<and> JSON_parse tools (rewrite_refs src) = Inr parsed
        \<and> compileJSONSchema tools parsed ''settings.schema'' (dirname @ ''/schema'') = Inr types
        \<and> files s' (dirname @ ''/src/schema/'' @ file @ ''.schema.d.ts'') = Some types
        \<and> files s' (dirname @ ''/src/schema/'' @ file @ ''.schema.json'') = Some (rewrite_refs src))
     \<and> (\<forall>name. files s' (dirname @ ''/dist/schema/'' @ name)
                = files s (dirname @ ''/dist/schema/'' @ name))
     \<and> dirs s' = dirs s
          \<union> set (parent_dirs (dirname @ ''/src/schema'')) \<union> {dirname @ ''/src/schema''}
          \<union> set (parent_dirs (dirname @ ''/dist/schema'')) \<union> {dirname @ ''/dist/schema''}"
proof -
  from assms obtain rs0 s0 rs where
    mk: "promise_all [mkdirp (dirname @ ''/src/schema''), mkdirp (dirname @ ''/dist/schema'')] s
        = (Inr rs0, s0)"
    and all: "promise_all (map (schema_file tools dirname) SCHEMA_FILES) s0 = (Inr rs, s')"
    by (auto simp: schema_def await_def settled_def split: prod.splits sum.splits)
  from mkdirp_both [OF mk] have s0: "s0 = s\<lparr>dirs := dirs s
      \<union> set (parent_dirs (dirname @ ''/src/schema'')) \<union> {dirname @ ''/src/schema''}
      \<union> set (parent_dirs (dirname @ ''/dist/schema'')) \<union> {dirname @ ''/dist/schema''}\<rparr>" .
  have s': "s' = snd (promise_all (map (schema_file tools dirname) SCHEMA_FILES) s0)"
    using all by simp
  have "distinct SCHEMA_FILES" by (simp add: SCHEMA_FILES_def)
  from schema_files_ok [OF this all]
  have "\<forall>file\<in>set SCHEMA_FILES. schema_file_written tools dirname s0 s' file" .
  then have 1: "\<forall>file\<in>set SCHEMA_FILES. schema_file_written tools dirname s s' file"
    by (simp add: schema_file_written_def s0)
  have 2: "files s' (dirname @ ''/dist/schema/'' @ name)
      = files s (dirname @ ''/dist/schema/'' @ name)" for name
  proof -
    have "files s' (dirname @ ''/dist/schema/'' @ name) = files s0 (dirname @ ''/dist/schema/'' @ name)"
      unfolding s' by (rule schema_files_frame) simp
    then show ?thesis by (simp add: s0)
  qed
  have 3: "dirs s' = dirs s
      \<union> set (parent_dirs (dirname @ ''/src/schema'')) \<union> {dirname @ ''/src/schema''}
      \<union> set (parent_dirs (dirname @ ''/dist/schema'')) \<union> {dirname @ ''/dist/schema''}"
    unfolding s' by (simp add: schema_files_dirs s0)
  from 1 2 3 show ?thesis
    unfolding schema_file_written_def by blast
qed

text \<open>
  Some texts the stand-in for \<^verbatim>\<open>JSON.parse\<close> accepts, and some it rejects.
\<close>

lemma json_valid_examples:
  \<open>json_valid ''{}''\<close>
  \<open>json_valid ''{"$ref": "#/definitions/x"}''\<close>
  \<open>json_valid ''[1, -0.5e+3, true, null, {"a": ["b c", {}]}]''\<close>
  \<open>json_valid (''["'' @ [CHR 0x5C] @ ''u00e9'' @ [CHR 0x5C] @ ''n"]'')\<close>
  \<open>\<not> json_valid []\<close>
  \<open>\<not> json_valid ''{https://sourcegraph.com/v1/settings.schema.json#/definitions/x}''\<close>
  \<open>\<not> json_valid ''{#/definitions/x}''\<close>
  \<open>\<not> json_valid ''{"a": 1,}''\<close>
  \<open>\<not> json_valid ''{"a" 1}''\<close>
  \<open>\<not> json_valid ''[01]''\<close>
  \<open>\<not> json_valid ''[1 2]''\<close>
  \<open>\<not> json_valid ''[tru]''\<close>
  \<open>\<not> json_valid ''"a''\<close>
  \<open>\<not> json_valid ''{} {}''\<close>
  \<open>\<not> json_valid ''[}''\<close>
  by code_simp+

lemma example_schema_run:
  "fst (schema example_json_tools ''/repo'' example_schema_fs) = Inr ()"
  by code_simp

lemma example_settings_rewrite:
  "rewrite_refs example_settings_schema = example_settings_rewritten"
  by code_simp

lemma example_schema_dirs:
  "parent_dirs ''/repo/src/schema'' = [''/repo'', ''/repo/src'']"
  "parent_dirs ''/repo/dist/schema'' = [''/repo'', ''/repo/dist'']"
  by code_simp+

text \<open>
  C4 as stated fails: the task writes to \<^verbatim>\<open>src/schema\<close> only (lines 157-159). On a
  repository with the four schema files it succeeds, the rewritten settings schema is in
  \<^verbatim>\<open>src/schema\<close>, and \<^verbatim>\<open>dist/schema\<close> is a directory that holds neither the
  schema nor its type declarations.
\<close>

theorem schema_writes_nothing_to_dist:
  "fst (schema example_json_tools ''/repo'' example_schema_fs) = Inr ()
   \<and> files (snd (schema example_json_tools ''/repo'' example_schema_fs))
        ''/repo/src/schema/settings.schema.json'' = Some example_settings_rewritten
   \<and> files (snd (schema example_json_tools ''/repo'' example_schema_fs))
        ''/repo/dist/schema/settings.schema.json'' = None
   \<and> files (snd (schema example_json_tools ''/repo'' example_schema_fs))
        ''/repo/dist/schema/settings.schema.d.ts'' = None
   \<and> ''/repo/dist/schema'' \<in> dirs (snd (schema example_json_tools ''/repo'' example_schema_fs))"
  by code_simp

text \<open>
  The same repository: the rewritten settings schema and its type declarations are in
  \<^verbatim>\<open>src/schema\<close>, nothing is in \<^verbatim>\<open>dist/schema\<close>, and the directories
  \<^verbatim>\<open>src\<close>, \<^verbatim>\<open>src/schema\<close>, \<^verbatim>\<open>dist\<close> and \<^verbatim>\<open>dist/schema\<close> were made.
\<close>

theorem schema_writes_source_tree_only_witness:
  "schema example_json_tools ''/repo'' example_schema_fs =
     (Inr (), snd (schema example_json_tools ''/repo'' example_schema_fs))
   \<and> files (snd (schema example_json_tools ''/repo'' example_schema_fs))
        ''/repo/src/schema/settings.schema.json'' = Some example_settings_rewritten
   \<and> files (snd (schema example_json_tools ''/repo'' example_schema_fs))
        ''/repo/src/schema/settings.schema.d.ts'' = Some ''/* settings.schema */''
   \<and> files (snd (schema example_json_tools ''/repo'' example_schema_fs))
        ''/repo/dist/schema/settings.schema.json'' = None
   \<and> dirs (snd (schema example_json_tools ''/repo'' example_schema_fs))
        = {''/repo'', ''/repo/schema'', ''/repo/src'', ''/repo/src/schema'',
           ''/repo/dist'', ''/repo/dist/schema''}"
proof -
  let ?s' = "snd (schema example_json_tools ''/repo'' example_schema_fs)"
  have run: "schema example_json_tools ''/repo'' example_schema_fs = (Inr (), ?s')"
    using example_schema_run by (simp add: prod_eq_iff)
  note main = schema_writes_source_tree_only [OF run]
  have "''settings'' \<in> set SCHEMA_FILES" by (simp add: SCHEMA_FILES_def)
  with main obtain src parsed types where w:
    "files example_schema_fs (''/repo'' @ ''/schema/'' @ ''settings'' @ ''.schema.json'') = Some src"
    "JSON_parse example_json_tools (rewrite_refs src) = Inr parsed"
    "compileJSONSchema example_json_tools parsed ''settings.schema'' (''/repo'' @ ''/schema'')
       = Inr types"
    "files ?s' (''/repo'' @ ''/src/schema/'' @ ''settings'' @ ''.schema.d.ts'') = Some types"
    "files ?s' (''/repo'' @ ''/src/schema/'' @ ''settings'' @ ''.schema.json'')
       = Some (rewrite_refs src)"
    by blast
  from w(1) have src: "src = example_settings_schema"
    by (simp add: example_schema_fs_def)
  from w(3) have types: "types = ''/* settings.schema */''"
    by (simp add: example_json_tools_def)
  have a: "files ?s' ''/repo/src/schema/settings.schema.json'' = Some example_settings_rewritten"
    using w(5) by (simp add: src example_settings_rewrite)
  have b: "files ?s' ''/repo/src/schema/settings.schema.d.ts'' = Some ''/* settings.schema */''"
    using w(4) by (simp add: types)
  from main have "files ?s' (''/repo'' @ ''/dist/schema/'' @ ''settings.schema.json'')
      = files example_schema_fs (''/repo'' @ ''/dist/schema/'' @ ''settings.schema.json'')"
    by blast
  then have c: "files ?s' ''/repo/dist/schema/settings.schema.json'' = None"
    by (simp add: example_schema_fs_def)
  from main have "dirs ?s' = dirs example_schema_fs
      \<union> set (parent_dirs (''/repo'' @ ''/src/schema'')) \<union> {''/repo'' @ ''/src/schema''}
      \<union> set (parent_dirs (''/repo'' @ ''/dist/schema'')) \<union> {''/repo'' @ ''/dist/schema''}"
    by blast
  then have d: "dirs ?s' = {''/repo'', ''/repo/schema'', ''/repo/src'', ''/repo/src/schema'',
      ''/repo/dist'', ''/repo/dist/schema''}"
    by (simp add: example_schema_dirs example_schema_fs_def insert_commute)
  from run a b c d show ?thesis by blast
qed

section \<open>The unused-exports check\<close>

lemma stat_path_exists:
  "stat p s = (if path_exists s p then (Inr (), s) else (Inl (Error (''ENOENT: '' @ p)), s))"
  by (simp add: stat_def path_exists_def)

lemma resolve_extension_ts_tsx:
  "resolve_extension resolve dirname file [''ts'', ''tsx''] s =
     (Inr (reported_path resolve dirname s file), s)"
  by (simp add: stat_path_exists reported_path_def Let_def)

lemma promise_all_pure:
  assumes "\<And>x. x \<in> set xs \<Longrightarrow> act x s = (Inr (g x), s)"
  shows "promise_all (map act xs) s = (Inr (map g xs), s)"
  using assms by (induction xs) simp_all

lemma map_by_index:
  "map (\<lambda>i. f (map g ks ! i) (ks ! i)) [0 ..< length (map g ks)] = map (\<lambda>k. f (g k) k) ks"
  by (rule nth_equalityI) simp_all

lemma sorted_keys:
  "sorted (sorted_list_of_fset A)" "distinct (sorted_list_of_fset A)"
  by (simp_all add: sorted_list_of_fset.rep_eq)

lemma sorted_keys_empty: "sorted_list_of_fset A = [] \<longleftrightarrow> A = {||}"
proof
  assume "sorted_list_of_fset A = []"
  then have "set (sorted_list_of_fset A) = {}" by simp
  then show "A = {||}" by (simp del: set_empty) (metis bot_fset.rep_eq fset_inverse)
next
  assume "A = {||}"
  then have "set (sorted_list_of_fset A) = {}" by simp
  then show "sorted_list_of_fset A = []" by (simp del: sorted_list_of_fset_simps)
qed

lemma unusedExports_none:
  assumes "fmdom analysis = {||}"
  shows "unusedExports resolve dirname (Inr analysis) s = (Inr (), s)"
  using assms by (simp add: unusedExports_def await_def settled_def sorted_keys_empty)

lemma unusedExports_some:
  assumes "fmdom analysis \<noteq> {||}"
  shows "unusedExports resolve dirname (Inr analysis) s =
     (Inl (PluginError ''ts-unused-exports''
        (join [CHR 0x0A, CHR 0x09]
          (UNUSED_EXPORTS_HEADER #
           map (\<lambda>file. reported_path resolve dirname s file @ '': '' @
                      join '' '' (unused_of analysis file))
             (sorted_list_of_fset (fmdom analysis))))), s)"
proof -
  let ?keys = "sorted_list_of_fset (fmdom analysis)"
  have ne: "?keys \<noteq> []" using assms by (simp add: sorted_keys_empty)
  have all: "promise_all
      (map (\<lambda>file. resolve_extension resolve dirname file [''ts'', ''tsx'']) ?keys) s
      = (Inr (map (reported_path resolve dirname s) ?keys), s)"
    by (rule promise_all_pure) (rule resolve_extension_ts_tsx)
  have idx: "map (\<lambda>i. (map (reported_path resolve dirname s) ?keys ! i) @ '': '' @
                        join '' '' (unused_of analysis (?keys ! i)))
               [0 ..< length ?keys]
      = map (\<lambda>file. reported_path resolve dirname s file @ '': '' @
                      join '' '' (unused_of analysis file)) ?keys"
    by (rule map_by_index [unfolded length_map])
  show ?thesis
    using ne idx by (simp add: unusedExports_def await_def settled_def Let_def all)
qed

lemma unused_of_lookup:
  "file |\<in>| fmdom analysis \<Longrightarrow> fmlookup analysis file = Some (unused_of analysis file)"
  by (auto simp: unused_of_def fmlookup_dom_iff)

text \<open>
  \<open>join\<close> written with \<open>concat\<close>: every element but the first follows a separator.
\<close>

lemma join_Cons: "join sep (x # xs) = x @ concat (map (\<lambda>y. sep @ y) xs)"
  by (induction xs arbitrary: x) simp_all

lemma join_drop: "join sep xs = drop (length sep) (concat (map (\<lambda>y. sep @ y) xs))"
  by (cases xs) (simp_all add: join_Cons)

text \<open>
  C5. Given the analysis, the check fails if and only if the object has a key. Without a
  key it succeeds and leaves the file system as it was (there is nothing it prints). With
  keys it fails with a \<^verbatim>\<open>ts-unused-exports\<close> plugin error whose message is the header
  followed, for every key, by a line feed, a tab and the line of the key; the lines follow
  the keys in sorted order, each key once, and the line of a key is its reported path, a
  colon and a space, and all the names the analysis lists for that key, in their order,
  with one space between two names.
\<close>

theorem unusedExports_fails_iff_nonempty:
  "(isl (fst (unusedExports resolve dirname (Inr analysis) s)) \<longleftrightarrow> fmdom analysis \<noteq> {||})
   \<and> (fmdom analysis = {||} \<longrightarrow> unusedExports resolve dirname (Inr analysis) s = (Inr (), s))
   \<and> (fmdom analysis \<noteq> {||} \<longrightarrow>
        unusedExports resolve dirname (Inr analysis) s =
          (Inl (PluginError ''ts-unused-exports''
             (UNUSED_EXPORTS_HEADER @
              concat (map (\<lambda>file. [CHR 0x0A, CHR 0x09]
                    @ reported_path resolve dirname s file @ '': ''
                    @ drop 1 (concat (map (\<lambda>name. '' '' @ name) (unused_of analysis file))))
                (sorted_list_of_fset (fmdom analysis))))), s))
   \<and> sorted (sorted_list_of_fset (fmdom analysis))
   \<and> distinct (sorted_list_of_fset (fmdom analysis))
   \<and> set (sorted_list_of_fset (fmdom analysis)) = fset (fmdom analysis)
   \<and> (\<forall>file. file |\<in>| fmdom analysis \<longrightarrow>
         fmlookup analysis file = Some (unused_of analysis file))"
proof -
  let ?keys = "sorted_list_of_fset (fmdom analysis)"
  let ?U = "unusedExports resolve dirname (Inr analysis) s"
  have a: "isl (fst ?U) \<longleftrightarrow> fmdom analysis \<noteq> {||}"
  proof (cases "fmdom analysis = {||}")
    case True
    then show ?thesis by (simp add: unusedExports_none)
  next
    case False
    then show ?thesis by (simp add: unusedExports_some)
  qed
  have b: "fmdom analysis = {||} \<longrightarrow> ?U = (Inr (), s)"
    by (simp add: unusedExports_none)
  have c: "?U = (Inl (PluginError ''ts-unused-exports''
             (UNUSED_EXPORTS_HEADER @
              concat (map (\<lambda>file. [CHR 0x0A, CHR 0x09]
                    @ reported_path resolve dirname s file @ '': ''
                    @ drop 1 (concat (map (\<lambda>name. '' '' @ name) (unused_of analysis file))))
                ?keys))), s)"
    if ne: "fmdom analysis \<noteq> {||}"
  proof -
    have names: "join '' '' names = drop 1 (concat (map (\<lambda>name. '' '' @ name) names))"
      for names
      using join_drop [of "'' ''" names] by simp
    have "join [CHR 0x0A, CHR 0x09]
            (UNUSED_EXPORTS_HEADER #
             map (\<lambda>file. reported_path resolve dirname s file @ '': '' @
                        join '' '' (unused_of analysis file)) ?keys)
        = UNUSED_EXPORTS_HEADER @
              concat (map (\<lambda>file. [CHR 0x0A, CHR 0x09]
                    @ reported_path resolve dirname s file @ '': ''
                    @ drop 1 (concat (map (\<lambda>name. '' '' @ name) (unused_of analysis file))))
                ?keys)"
      by (simp add: join_Cons names comp_def)
    then show ?thesis
      using unusedExports_some [OF ne, of resolve dirname s] by simp
  qed
  have d: "sorted ?keys" "distinct ?keys" "set ?keys = fset (fmdom analysis)"
    by (simp_all add: sorted_keys)
  from a b c d unused_of_lookup [of _ analysis] show ?thesis by blast
qed

lemma example_keys:
  "sorted_list_of_fset (fmdom example_analysis) = [''src/baz'', ''src/foo'', ''src/gone'']"
  unfolding example_analysis_def by code_simp

lemma example_dom: "fmdom example_analysis \<noteq> {||}"
  using example_keys sorted_keys_empty [of "fmdom example_analysis"] by simp

lemma example_report_keys:
  "sorted_list_of_fset (fmdom example_report) = [''src/baz'', ''src/foo'']"
  unfolding example_report_def by code_simp

lemma example_report_dom: "fmdom example_report \<noteq> {||}"
  using example_report_keys sorted_keys_empty [of "fmdom example_report"] by simp

lemma example_report_paths:
  "reported_path example_resolve ''/repo'' example_sources ''src/baz'' = ''/repo/src/baz.ts''"
  "reported_path example_resolve ''/repo'' example_sources ''src/foo'' = ''/repo/src/foo.tsx''"
  by (simp_all add: reported_path_def path_exists_def example_sources_def example_fs_def
      example_resolve_def)

text \<open>
  The analysis of the specification's example gives a message of the header and two
  lines; the empty analysis gives success.
\<close>

theorem unusedExports_fails_iff_nonempty_witness:
  "unusedExports example_resolve ''/repo'' (Inr example_report) example_sources =
     (Inl (PluginError ''ts-unused-exports''
        (''Unused exports found (must unexport or remove):'' @ [CHR 0x0A, CHR 0x09]
         @ ''/repo/src/baz.ts: qux quux'' @ [CHR 0x0A, CHR 0x09]
         @ ''/repo/src/foo.tsx: bar'')), example_sources)
   \<and> unusedExports example_resolve ''/repo'' (Inr fmempty) example_sources
       = (Inr (), example_sources)
   \<and> sorted_list_of_fset (fmdom example_report) = [''src/baz'', ''src/foo'']
   \<and> fmlookup example_report ''src/baz'' = Some [''qux'', ''quux'']
   \<and> fmlookup example_report ''src/foo'' = Some [''bar'']"
proof -
  have e: "fmdom (fmempty :: (string, string list) fmap) = {||}" by simp
  have k: "''src/baz'' |\<in>| fmdom example_report" "''src/foo'' |\<in>| fmdom example_report"
    unfolding example_report_def by code_simp+
  have u: "unused_of example_report ''src/baz'' = [''qux'', ''quux'']"
    "unused_of example_report ''src/foo'' = [''bar'']"
    unfolding example_report_def by code_simp+
  note main = unusedExports_fails_iff_nonempty
    [of example_resolve "''/repo''" example_report example_sources]
  from main example_report_dom
  have "unusedExports example_resolve ''/repo'' (Inr example_report) example_sources =
      (Inl (PluginError ''ts-unused-exports''
         (UNUSED_EXPORTS_HEADER @
          concat (map (\<lambda>file. [CHR 0x0A, CHR 0x09]
                @ reported_path example_resolve ''/repo'' example_sources file @ '': ''
                @ drop 1 (concat (map (\<lambda>name. '' '' @ name) (unused_of example_report file))))
            (sorted_list_of_fset (fmdom example_report))))), example_sources)"
    by blast
  then have 1: "unusedExports example_resolve ''/repo'' (Inr example_report) example_sources =
     (Inl (PluginError ''ts-unused-exports''
        (''Unused exports found (must unexport or remove):'' @ [CHR 0x0A, CHR 0x09]
         @ ''/repo/src/baz.ts: qux quux'' @ [CHR 0x0A, CHR 0x09]
         @ ''/repo/src/foo.tsx: bar'')), example_sources)"
    by (simp add: example_report_keys example_report_paths u UNUSED_EXPORTS_HEADER_def)
  from main k u
  have 2: "fmlookup example_report ''src/baz'' = Some [''qux'', ''quux'']"
    "fmlookup example_report ''src/foo'' = Some [''bar'']"
    by auto
  from unusedExports_fails_iff_nonempty
    [of example_resolve "''/repo''" fmempty example_sources] e
  have 3: "unusedExports example_resolve ''/repo'' (Inr fmempty) example_sources
       = (Inr (), example_sources)"
    by blast
  from 1 2 3 example_report_keys show ?thesis by blast
qed

text \<open>
  C10. The path that starts the report line of a file is \<^verbatim>\<open>path.resolve\<close> of the
  script's directory and the file name with \<^verbatim>\<open>.ts\<close> when that path exists, otherwise
  the same with \<^verbatim>\<open>.tsx\<close> when that exists, and otherwise the name exactly as the
  analysis returned it.
\<close>

theorem unusedExports_reported_path:
  "resolve_extension resolve dirname file [''ts'', ''tsx''] s =
     (Inr (reported_path resolve dirname s file), s)
   \<and> reported_path resolve dirname s file =
       (if path_exists s (resolve dirname (file @ ''.ts'')) then resolve dirname (file @ ''.ts'')
        else if path_exists s (resolve dirname (file @ ''.tsx''))
          then resolve dirname (file @ ''.tsx'')
        else file)
   \<and> (fmdom analysis \<noteq> {||} \<longrightarrow>
        unusedExports resolve dirname (Inr analysis) s =
          (Inl (PluginError ''ts-unused-exports''
             (join [CHR 0x0A, CHR 0x09]
               (UNUSED_EXPORTS_HEADER #
                map (\<lambda>file. reported_path resolve dirname s file @ '': '' @
                           join '' '' (unused_of analysis file))
                  (sorted_list_of_fset (fmdom analysis))))), s))"
proof (intro conjI impI)
  show "resolve_extension resolve dirname file [''ts'', ''tsx''] s =
     (Inr (reported_path resolve dirname s file), s)"
    by (rule resolve_extension_ts_tsx)
  show "reported_path resolve dirname s file =
       (if path_exists s (resolve dirname (file @ ''.ts'')) then resolve dirname (file @ ''.ts'')
        else if path_exists s (resolve dirname (file @ ''.tsx''))
          then resolve dirname (file @ ''.tsx'')
        else file)"
    by (simp add: reported_path_def)
  assume "fmdom analysis \<noteq> {||}"
  then show "unusedExports resolve dirname (Inr analysis) s =
          (Inl (PluginError ''ts-unused-exports''
             (join [CHR 0x0A, CHR 0x09]
               (UNUSED_EXPORTS_HEADER #
                map (\<lambda>file. reported_path resolve dirname s file @ '': '' @
                           join '' '' (unused_of analysis file))
                  (sorted_list_of_fset (fmdom analysis))))), s)"
    by (rule unusedExports_some)
qed

text \<open>
  A file that exists with both extensions, one with \<^verbatim>\<open>.tsx\<close> only and one that does
  not exist, and the report for them.
\<close>

theorem unusedExports_reported_path_witness:
  "reported_path example_resolve ''/repo'' example_sources ''src/baz'' = ''/repo/src/baz.ts''
   \<and> reported_path example_resolve ''/repo'' example_sources ''src/foo'' = ''/repo/src/foo.tsx''
   \<and> reported_path example_resolve ''/repo'' example_sources ''src/gone'' = ''src/gone''
   \<and> fst (unusedExports example_resolve ''/repo'' (Inr example_analysis) example_sources) =
       Inl (PluginError ''ts-unused-exports''
         (''Unused exports found (must unexport or remove):'' @ [CHR 0x0A, CHR 0x09]
          @ ''/repo/src/baz.ts: qux quux'' @ [CHR 0x0A, CHR 0x09]
          @ ''/repo/src/foo.tsx: bar'' @ [CHR 0x0A, CHR 0x09]
          @ ''src/gone: x''))"
proof -
  note main = unusedExports_reported_path [of example_resolve "''/repo''" _ example_sources example_analysis]
  have ex: "path_exists example_sources ''/repo/src/baz.ts''"
    "path_exists example_sources ''/repo/src/baz.tsx''"
    "path_exists example_sources ''/repo/src/foo.tsx''"
    "\<not> path_exists example_sources ''/repo/src/foo.ts''"
    "\<not> path_exists example_sources ''/repo/src/gone.ts''"
    "\<not> path_exists example_sources ''/repo/src/gone.tsx''"
    by (simp_all add: path_exists_def example_sources_def example_fs_def)
  have a: "reported_path example_resolve ''/repo'' example_sources ''src/baz'' = ''/repo/src/baz.ts''"
    using main [of "''src/baz''"] ex by (simp add: example_resolve_def)
  have b: "reported_path example_resolve ''/repo'' example_sources ''src/foo'' = ''/repo/src/foo.tsx''"
    using main [of "''src/foo''"] ex by (simp add: example_resolve_def)
  have c: "reported_path example_resolve ''/repo'' example_sources ''src/gone'' = ''src/gone''"
    using main [of "''src/gone''"] ex by (simp add: example_resolve_def)
  have u: "unused_of example_analysis ''src/baz'' = [''qux'', ''quux'']"
    "unused_of example_analysis ''src/foo'' = [''bar'']"
    "unused_of example_analysis ''src/gone'' = [''x'']"
    unfolding example_analysis_def by code_simp+
  from main [of "''src/baz''"] example_dom
  have "fst (unusedExports example_resolve ''/repo'' (Inr example_analysis) example_sources) =
      Inl (PluginError ''ts-unused-exports''
             (join [CHR 0x0A, CHR 0x09]
               (UNUSED_EXPORTS_HEADER #
                map (\<lambda>file. reported_path example_resolve ''/repo'' example_sources file @ '': '' @
                           join '' '' (unused_of example_analysis file))
                  (sorted_list_of_fset (fmdom example_analysis)))))"
    by simp
  then have d: "fst (unusedExports example_resolve ''/repo'' (Inr example_analysis) example_sources) =
       Inl (PluginError ''ts-unused-exports''
         (''Unused exports found (must unexport or remove):'' @ [CHR 0x0A, CHR 0x09]
          @ ''/repo/src/baz.ts: qux quux'' @ [CHR 0x0A, CHR 0x09]
          @ ''/repo/src/foo.tsx: bar'' @ [CHR 0x0A, CHR 0x09]
          @ ''src/gone: x''))"
    by (simp add: example_keys a b c u UNUSED_EXPORTS_HEADER_def)
  from a b c d show ?thesis by blast
qed

end
